theory Spec2Isabelle
  imports Main "HOL-Library.AList"
begin

section \<open>The crossword constraint solver of generate.py\<close>

text \<open>
  The theory embeds the class \<open>CrosswordCreator\<close> of
  \<open>Optimization/crossword/generate.py\<close>: node consistency, \<open>revise\<close>, the AC-3
  worklist loop, the consistency check, the two ordering heuristics and the
  backtracking search.

  Python sets are modelled as lists: the list gives the iteration order of the set,
  which Python leaves to the hash values. Every theorem below holds for every order of
  the lists it is given.
\<close>

subsection \<open>Data model\<close>

datatype direction = ACROSS | DOWN

text \<open>
  Modelled from the spec: the class \<open>Variable\<close> of the module \<open>crossword\<close>, which
  is not among the sources. A slot is identified by start row, start column, direction
  and length, and two slots are equal iff all four fields match.
\<close>

datatype variable =
  Variable (var_i: int) (var_j: int) (var_direction: direction) (var_length: int)

text \<open>
  Modelled from the spec: the fields of the class \<open>Crossword\<close> that the solver reads.
  \<open>variables\<close> is the set of slots, \<open>words\<close> the word list, and \<open>overlaps\<close> the
  table of the overlap relation: \<open>None\<close> where two slots do not cross, otherwise the
  pair of offsets of the shared cell.
\<close>

record crossword =
  variables :: "variable list"
  words :: "string list"
  overlaps :: "variable \<times> variable \<Rightarrow> (nat \<times> nat) option"

datatype error = KeyError | IndexError | TypeError

text \<open>
  \<open>self.domains\<close> is a dict whose keys are fixed by \<open>__init__\<close> to the slots of the
  crossword and never change afterwards; it is a function that the model reads at those
  keys only. An assignment is a dict in insertion order.
\<close>

type_synonym domains = "variable \<Rightarrow> string list"
type_synonym assignment = "(variable \<times> string) list"
type_synonym arc = "variable \<times> variable"

definition init_domains :: "crossword \<Rightarrow> domains" where
  "init_domains cw = (\<lambda>var. words cw)"

text \<open>
  Modelled from the spec: the dict \<open>overlaps\<close> has one entry for every ordered pair of
  distinct slots; \<open>self.crossword.overlaps[x, y]\<close> raises KeyError for any other pair.
\<close>

definition overlap_entry :: "crossword \<Rightarrow> variable \<Rightarrow> variable \<Rightarrow> error + (nat \<times> nat) option" where
  "overlap_entry cw x y =
     (if x \<in> set (variables cw) \<and> y \<in> set (variables cw) \<and> x \<noteq> y
      then Inr (overlaps cw (x, y)) else Inl KeyError)"

text \<open>
  Modelled from the spec: \<open>Crossword.neighbors\<close>. Two slots are neighbours iff their
  overlap entry is not "no overlap"; the set is derived anew at every call, as
  \<open>set(v for v in self.variables if v != var and self.overlaps[v, var])\<close>.
\<close>

fun neighbors_of :: "crossword \<Rightarrow> variable \<Rightarrow> variable list \<Rightarrow> error + variable list" where
  "neighbors_of cw var [] = Inr []"
| "neighbors_of cw var (v # vs) =
     (if v \<noteq> var then
        (case overlap_entry cw v var of
           Inl e \<Rightarrow> Inl e
         | Inr None \<Rightarrow> neighbors_of cw var vs
         | Inr (Some ij) \<Rightarrow>
             (case neighbors_of cw var vs of Inl e \<Rightarrow> Inl e | Inr ns \<Rightarrow> Inr (v # ns)))
      else neighbors_of cw var vs)"

definition neighbors :: "crossword \<Rightarrow> variable \<Rightarrow> error + variable list" where
  "neighbors cw var = neighbors_of cw var (variables cw)"

subsection \<open>Node consistency\<close>

text \<open>
  \<open>enforce_node_consistency\<close>: for every key of \<open>self.domains\<close> a new set is built
  from the words whose length is the slot's, and stored under the key.
\<close>

fun consistent_var :: "variable \<Rightarrow> string list \<Rightarrow> string list" where
  "consistent_var var [] = []"
| "consistent_var var (word # ws) =
     (if int (length word) = var_length var then word # consistent_var var ws
      else consistent_var var ws)"

fun node_consistency_loop :: "variable list \<Rightarrow> domains \<Rightarrow> domains" where
  "node_consistency_loop [] d = d"
| "node_consistency_loop (var # vs) d =
     node_consistency_loop vs (d(var := consistent_var var (d var)))"

definition enforce_node_consistency :: "crossword \<Rightarrow> domains \<Rightarrow> domains" where
  "enforce_node_consistency cw d = node_consistency_loop (variables cw) d"

subsection \<open>Arc consistency\<close>

text \<open>
  \<open>revise\<close>. The inner loop looks for a word of \<open>y\<close> that agrees with \<open>x_word\<close> at
  the overlap; an index out of range raises inside the \<open>try\<close> and the bare
  \<open>except\<close> goes on to the next word, so it counts as no match.
\<close>

fun has_match :: "string \<Rightarrow> nat \<Rightarrow> nat \<Rightarrow> string list \<Rightarrow> bool" where
  "has_match x_word i j [] = False"
| "has_match x_word i j (y_word # ys) =
     (if i < length x_word \<and> j < length y_word \<and> x_word ! i = y_word ! j then True
      else has_match x_word i j ys)"

fun inconsistent_x :: "nat \<Rightarrow> nat \<Rightarrow> string list \<Rightarrow> string list \<Rightarrow> string list" where
  "inconsistent_x i j dy [] = []"
| "inconsistent_x i j dy (x_word # xs) =
     (if \<not> has_match x_word i j dy then x_word # inconsistent_x i j dy xs
      else inconsistent_x i j dy xs)"

text \<open>\<open>self.domains[x] -= inconsistent_x\<close>, on sets.\<close>

definition set_minus :: "string list \<Rightarrow> string list \<Rightarrow> string list" where
  "set_minus xs ys = filter (\<lambda>w. w \<notin> set ys) xs"

definition revise :: "crossword \<Rightarrow> domains \<Rightarrow> variable \<Rightarrow> variable \<Rightarrow> error + (bool \<times> domains)" where
  "revise cw d x y =
     (case overlap_entry cw x y of
        Inl e \<Rightarrow> Inl e
      | Inr None \<Rightarrow> Inr (False, d)
      | Inr (Some (i, j)) \<Rightarrow>
          (let bad = inconsistent_x i j (d y) (d x)
           in Inr (bad \<noteq> [], d(x := set_minus (d x) bad))))"

text \<open>
  The initial worklist of \<open>ac3\<close>: every pair of a slot and one of its neighbours.
\<close>

fun initial_queue :: "crossword \<Rightarrow> variable list \<Rightarrow> error + arc list" where
  "initial_queue cw [] = Inr []"
| "initial_queue cw (var # vs) =
     (case neighbors cw var of
        Inl e \<Rightarrow> Inl e
      | Inr ns \<Rightarrow>
          (case initial_queue cw vs of
             Inl e \<Rightarrow> Inl e
           | Inr q \<Rightarrow> Inr (map (\<lambda>neighbor. (var, neighbor)) ns @ q)))"

text \<open>
  \<open>x_neighbors = self.crossword.neighbors(x); x_neighbors.remove(y)\<close>: removing an
  element that is not in the set raises KeyError.
\<close>

definition neighbors_except :: "crossword \<Rightarrow> variable \<Rightarrow> variable \<Rightarrow> error + variable list" where
  "neighbors_except cw x y =
     (case neighbors cw x of
        Inl e \<Rightarrow> Inl e
      | Inr ns \<Rightarrow> if y \<in> set ns then Inr (removeAll y ns) else Inl KeyError)"

text \<open>
  The \<open>while queue\<close> loop. The result is the returned flag, the domain store and the
  worklist as the loop leaves them; \<open>None\<close> stands for a loop that never returns.
\<close>

partial_function (option) ac3_loop ::
  "crossword \<Rightarrow> domains \<Rightarrow> arc list \<Rightarrow> (error + (bool \<times> domains \<times> arc list)) option" where
  "ac3_loop cw d queue =
     (case queue of
        [] \<Rightarrow> Some (Inr (True, d, []))
      | (x, y) # rest \<Rightarrow>
          (case revise cw d x y of
             Inl e \<Rightarrow> Some (Inl e)
           | Inr (revised, d') \<Rightarrow>
               if revised then
                 (if length (d' x) = 0 then Some (Inr (False, d', rest))
                  else
                    (case neighbors_except cw x y of
                       Inl e \<Rightarrow> Some (Inl e)
                     | Inr x_neighbors \<Rightarrow>
                         ac3_loop cw d' (rest @ map (\<lambda>neighbor. (neighbor, x)) x_neighbors)))
               else ac3_loop cw d' rest))"

declare ac3_loop.simps [code]

text \<open>
  \<open>ac3\<close>. With \<open>arcs = None\<close> the worklist is a local list. With an explicit list
  the assignment \<open>queue = arcs\<close> makes the worklist the caller's list object, so the
  third component of the result is what the caller's argument holds after the call.
\<close>

definition ac3 ::
  "crossword \<Rightarrow> domains \<Rightarrow> arc list option \<Rightarrow> (error + (bool \<times> domains \<times> arc list option)) option" where
  "ac3 cw d arcs =
     (case arcs of
        None \<Rightarrow>
          (case initial_queue cw (variables cw) of
             Inl e \<Rightarrow> Some (Inl e)
           | Inr queue \<Rightarrow>
               (case ac3_loop cw d queue of
                  None \<Rightarrow> None
                | Some (Inl e) \<Rightarrow> Some (Inl e)
                | Some (Inr (ok, d', q')) \<Rightarrow> Some (Inr (ok, d', None))))
      | Some queue \<Rightarrow>
          (case ac3_loop cw d queue of
             None \<Rightarrow> None
           | Some (Inl e) \<Rightarrow> Some (Inl e)
           | Some (Inr (ok, d', q')) \<Rightarrow> Some (Inr (ok, d', Some q'))))"

subsection \<open>The checks on an assignment\<close>

text \<open>
  \<open>assignment_complete\<close>: every slot is a key of the assignment, and its word is not
  the empty string (which Python takes as false).
\<close>

fun assignment_complete_loop :: "assignment \<Rightarrow> variable list \<Rightarrow> bool" where
  "assignment_complete_loop a [] = True"
| "assignment_complete_loop a (var # vs) =
     (case map_of a var of
        None \<Rightarrow> False
      | Some word \<Rightarrow> if word = [] then False else assignment_complete_loop a vs)"

definition assignment_complete :: "crossword \<Rightarrow> assignment \<Rightarrow> bool" where
  "assignment_complete cw a = assignment_complete_loop a (variables cw)"

text \<open>
  \<open>consistent\<close>. The inner loop unpacks \<open>overlaps[var, neighbor]\<close> before it asks
  whether the neighbour is assigned, so an entry \<open>None\<close> raises TypeError; the two
  character reads raise IndexError when out of range.
\<close>

fun consistent_neighbors ::
  "crossword \<Rightarrow> assignment \<Rightarrow> variable \<Rightarrow> string \<Rightarrow> variable list \<Rightarrow> error + bool" where
  "consistent_neighbors cw a var word [] = Inr True"
| "consistent_neighbors cw a var word (neighbor # ns) =
     (case overlap_entry cw var neighbor of
        Inl e \<Rightarrow> Inl e
      | Inr None \<Rightarrow> Inl TypeError
      | Inr (Some (i, j)) \<Rightarrow>
          (case map_of a neighbor of
             None \<Rightarrow> consistent_neighbors cw a var word ns
           | Some nword \<Rightarrow>
               if i < length word \<and> j < length nword then
                 (if word ! i \<noteq> nword ! j then Inr False
                  else consistent_neighbors cw a var word ns)
               else Inl IndexError))"

fun consistent_loop :: "crossword \<Rightarrow> assignment \<Rightarrow> variable list \<Rightarrow> error + bool" where
  "consistent_loop cw a [] = Inr True"
| "consistent_loop cw a (var # vs) =
     (case map_of a var of
        None \<Rightarrow> Inl KeyError
      | Some word \<Rightarrow>
          if int (length word) \<noteq> var_length var then Inr False
          else
            (case neighbors cw var of
               Inl e \<Rightarrow> Inl e
             | Inr ns \<Rightarrow>
                 (case consistent_neighbors cw a var word ns of
                    Inl e \<Rightarrow> Inl e
                  | Inr ok \<Rightarrow> if ok then consistent_loop cw a vs else Inr False)))"

definition consistent :: "crossword \<Rightarrow> assignment \<Rightarrow> error + bool" where
  "consistent cw a =
     (if length a \<noteq> length (remdups (map snd a)) then Inr False
      else consistent_loop cw a (map fst a))"

subsection \<open>The ordering heuristics\<close>

text \<open>
  \<open>order_domain_values\<close>: for every word of the slot's domain, count the words of the
  unassigned neighbours that differ from it at the overlap, then sort by the count
  (Python's sort is stable, as \<open>sort_key\<close> is). The method belongs to the object that
  holds the domain store, so the model hands the store back with the list.
\<close>

fun count_conflicts ::
  "crossword \<Rightarrow> variable \<Rightarrow> variable \<Rightarrow> string \<Rightarrow> string list \<Rightarrow> error + nat" where
  "count_conflicts cw var neighbor word [] = Inr 0"
| "count_conflicts cw var neighbor word (neighbor_word # nws) =
     (case overlap_entry cw var neighbor of
        Inl e \<Rightarrow> Inl e
      | Inr None \<Rightarrow> Inl TypeError
      | Inr (Some (i, j)) \<Rightarrow>
          if i < length word \<and> j < length neighbor_word then
            (case count_conflicts cw var neighbor word nws of
               Inl e \<Rightarrow> Inl e
             | Inr n \<Rightarrow> Inr (if word ! i \<noteq> neighbor_word ! j then n + 1 else n))
          else Inl IndexError)"

fun eliminated_by ::
  "crossword \<Rightarrow> domains \<Rightarrow> assignment \<Rightarrow> variable \<Rightarrow> string \<Rightarrow> variable list \<Rightarrow> error + nat" where
  "eliminated_by cw d a var word [] = Inr 0"
| "eliminated_by cw d a var word (neighbor # ns) =
     (if neighbor \<notin> set (map fst a) then
        (case count_conflicts cw var neighbor word (d neighbor) of
           Inl e \<Rightarrow> Inl e
         | Inr c \<Rightarrow>
             (case eliminated_by cw d a var word ns of
                Inl e \<Rightarrow> Inl e
              | Inr n \<Rightarrow> Inr (c + n)))
      else eliminated_by cw d a var word ns)"

fun eliminations ::
  "crossword \<Rightarrow> domains \<Rightarrow> assignment \<Rightarrow> variable \<Rightarrow> variable list \<Rightarrow> string list
     \<Rightarrow> error + (string \<times> nat) list" where
  "eliminations cw d a var ns [] = Inr []"
| "eliminations cw d a var ns (word # ws) =
     (case eliminated_by cw d a var word ns of
        Inl e \<Rightarrow> Inl e
      | Inr n \<Rightarrow>
          (case eliminations cw d a var ns ws of
             Inl e \<Rightarrow> Inl e
           | Inr es \<Rightarrow> Inr ((word, n) # es)))"

definition order_domain_values ::
  "crossword \<Rightarrow> domains \<Rightarrow> variable \<Rightarrow> assignment \<Rightarrow> error + (string list \<times> domains)" where
  "order_domain_values cw d var a =
     (case neighbors cw var of
        Inl e \<Rightarrow> Inl e
      | Inr ns \<Rightarrow>
          (case eliminations cw d a var ns (d var) of
             Inl e \<Rightarrow> Inl e
           | Inr es \<Rightarrow> Inr (map fst (sort_key snd es), d)))"

text \<open>
  \<open>select_unassigned_variable\<close>: the running minimum starts at \<open>math.inf\<close> with
  \<open>min_var = None\<close>, which is the state \<open>None\<close> here.
\<close>

fun select_loop ::
  "crossword \<Rightarrow> domains \<Rightarrow> assignment \<Rightarrow> variable list \<Rightarrow> (nat \<times> variable) option
     \<Rightarrow> error + (nat \<times> variable) option" where
  "select_loop cw d a [] best = Inr best"
| "select_loop cw d a (var # vs) best =
     (if var \<notin> set (map fst a) then
        (case best of
           None \<Rightarrow> select_loop cw d a vs (Some (length (d var), var))
         | Some (minimum, min_var) \<Rightarrow>
             if length (d var) < minimum then select_loop cw d a vs (Some (length (d var), var))
             else if length (d var) = minimum then
               (case neighbors cw var of
                  Inl e \<Rightarrow> Inl e
                | Inr nv \<Rightarrow>
                    (case neighbors cw min_var of
                       Inl e \<Rightarrow> Inl e
                     | Inr nm \<Rightarrow>
                         if length nv > length nm then select_loop cw d a vs (Some (minimum, var))
                         else select_loop cw d a vs best))
             else select_loop cw d a vs best)
      else select_loop cw d a vs best)"

definition select_unassigned_variable ::
  "crossword \<Rightarrow> domains \<Rightarrow> assignment \<Rightarrow> error + variable option" where
  "select_unassigned_variable cw d a =
     (case select_loop cw d a (variables cw) None of
        Inl e \<Rightarrow> Inl e
      | Inr best \<Rightarrow> Inr (map_option snd best))"

subsection \<open>Backtracking search\<close>

text \<open>
  \<open>backtrack\<close> and its \<open>for value in ...\<close> loop. The assignment is one dict object
  that every call mutates, so both functions return it as they leave it; the domain
  store of the object is returned as well. The first component of the result is the
  returned value: the assignment, or \<open>None\<close>.

  When \<open>select_unassigned_variable\<close> returns \<open>None\<close>, \<open>order_domain_values\<close> looks
  that up in the crossword and in the domain store, and a KeyError is raised.

  The depth of the recursion is the fuel \<open>n\<close>: with no fuel left the result is
  \<open>None\<close>. \<open>backtrack_fuel\<close> below shows that one more than the number of slots
  is always enough.
\<close>

fun backtrack ::
  "crossword \<Rightarrow> nat \<Rightarrow> domains \<Rightarrow> assignment
     \<Rightarrow> (error + (assignment option \<times> domains \<times> assignment)) option"
and try_values ::
  "crossword \<Rightarrow> nat \<Rightarrow> domains \<Rightarrow> variable \<Rightarrow> string list \<Rightarrow> assignment
     \<Rightarrow> (error + (assignment option \<times> domains \<times> assignment)) option" where
  "backtrack cw 0 d a = None"
| "backtrack cw (Suc n) d a =
     (if assignment_complete cw a then Some (Inr (Some a, d, a))
      else
        (case select_unassigned_variable cw d a of
           Inl e \<Rightarrow> Some (Inl e)
         | Inr None \<Rightarrow> Some (Inl KeyError)
         | Inr (Some var) \<Rightarrow>
             (case order_domain_values cw d var a of
                Inl e \<Rightarrow> Some (Inl e)
              | Inr (vals, d') \<Rightarrow> try_values cw n d' var vals a)))"
| "try_values cw n d var [] a = Some (Inr (None, d, a))"
| "try_values cw n d var (val # vals) a =
     (let a1 = AList.update var val a in
      case consistent cw a1 of
        Inl e \<Rightarrow> Some (Inl e)
      | Inr ok \<Rightarrow>
          if ok then
            (case backtrack cw n d a1 of
               None \<Rightarrow> None
             | Some (Inl e) \<Rightarrow> Some (Inl e)
             | Some (Inr (result, d', a2)) \<Rightarrow>
                 (case result of
                    Some r \<Rightarrow> Some (Inr (Some r, d', a2))
                  | None \<Rightarrow> try_values cw n d' var vals (AList.delete var a2)))
          else try_values cw n d var vals a1)"

text \<open>
  \<open>solve\<close>: node consistency on the initial store, AC-3 on all arcs (its flag is not
  looked at), then the search from the empty dict. The result is the returned value
  and the domain store at the end.
\<close>

definition solve :: "crossword \<Rightarrow> (error + (assignment option \<times> domains)) option" where
  "solve cw =
     (let d1 = enforce_node_consistency cw (init_domains cw) in
      case ac3 cw d1 None of
        None \<Rightarrow> None
      | Some (Inl e) \<Rightarrow> Some (Inl e)
      | Some (Inr (ok, d2, arcs)) \<Rightarrow>
          (case backtrack cw (Suc (length (variables cw))) d2 [] of
             None \<Rightarrow> None
           | Some (Inl e) \<Rightarrow> Some (Inl e)
           | Some (Inr (result, d3, a)) \<Rightarrow> Some (Inr (result, d3))))"

subsection \<open>The properties the solver is checked against\<close>

text \<open>
  The overlap relation is symmetric under index swap (section 3 of the specification):
  if the \<open>i\<close>-th cell of \<open>x\<close> is the \<open>j\<close>-th cell of \<open>y\<close>, then the \<open>j\<close>-th cell of
  \<open>y\<close> is the \<open>i\<close>-th cell of \<open>x\<close>.
\<close>

definition overlaps_symmetric :: "crossword \<Rightarrow> bool" where
  "overlaps_symmetric cw \<longleftrightarrow>
     (\<forall>x \<in> set (variables cw). \<forall>y \<in> set (variables cw).
        x \<noteq> y \<longrightarrow> overlaps cw (y, x) = map_option prod.swap (overlaps cw (x, y)))"

text \<open>Two words agree at an overlap: both characters exist and are equal.\<close>

definition agree :: "nat \<times> nat \<Rightarrow> string \<Rightarrow> string \<Rightarrow> bool" where
  "agree ij wx wy \<longleftrightarrow> fst ij < length wx \<and> snd ij < length wy \<and> wx ! fst ij = wy ! snd ij"

text \<open>
  Arc consistency of a domain store: for every ordered pair of slots with a registered
  overlap, every word of the first has a word of the second that agrees with it there.
\<close>

definition arc_ok :: "crossword \<Rightarrow> domains \<Rightarrow> variable \<Rightarrow> variable \<Rightarrow> bool" where
  "arc_ok cw d x y \<longleftrightarrow>
     (case overlaps cw (x, y) of
        None \<Rightarrow> True
      | Some ij \<Rightarrow> \<forall>wx \<in> set (d x). \<exists>wy \<in> set (d y). agree ij wx wy)"

definition arc_consistent :: "crossword \<Rightarrow> domains \<Rightarrow> bool" where
  "arc_consistent cw d \<longleftrightarrow>
     (\<forall>x \<in> set (variables cw). \<forall>y \<in> set (variables cw). x \<noteq> y \<longrightarrow> arc_ok cw d x y)"

text \<open>
  The invariant of the AC-3 loop: every arc is on the worklist or consistent in the
  current store.
\<close>

definition ac3_invariant :: "crossword \<Rightarrow> domains \<Rightarrow> arc list \<Rightarrow> bool" where
  "ac3_invariant cw d queue \<longleftrightarrow>
     (\<forall>x \<in> set (variables cw). \<forall>y \<in> set (variables cw).
        x \<noteq> y \<longrightarrow> (x, y) \<in> set queue \<or> arc_ok cw d x y)"

text \<open>
  The invariants of section 3 on an assignment: it maps every slot, and only slots, to
  one word each; the words are pairwise distinct; every word has the length of its
  slot; and the words of two slots with a registered overlap agree there.
\<close>

definition complete_assignment :: "crossword \<Rightarrow> assignment \<Rightarrow> bool" where
  "complete_assignment cw a \<longleftrightarrow>
     distinct (map fst a) \<and> set (map fst a) = set (variables cw)"

definition words_distinct :: "assignment \<Rightarrow> bool" where
  "words_distinct a \<longleftrightarrow> distinct (map snd a)"

definition lengths_match :: "assignment \<Rightarrow> bool" where
  "lengths_match a \<longleftrightarrow> (\<forall>(var, word) \<in> set a. int (length word) = var_length var)"

definition overlaps_agree :: "crossword \<Rightarrow> assignment \<Rightarrow> bool" where
  "overlaps_agree cw a \<longleftrightarrow>
     (\<forall>(x, wx) \<in> set a. \<forall>(y, wy) \<in> set a.
        x \<noteq> y \<longrightarrow> (case overlaps cw (x, y) of None \<Rightarrow> True | Some ij \<Rightarrow> agree ij wx wy))"

definition valid_solution :: "crossword \<Rightarrow> assignment \<Rightarrow> bool" where
  "valid_solution cw a \<longleftrightarrow>
     complete_assignment cw a \<and> words_distinct a \<and> lengths_match a \<and> overlaps_agree cw a"

text \<open>A solution of the constraint problem with domain store \<open>d\<close> takes every word
  from the domain of its slot.\<close>

definition drawn_from :: "domains \<Rightarrow> assignment \<Rightarrow> bool" where
  "drawn_from d a \<longleftrightarrow> (\<forall>(var, word) \<in> set a. word \<in> set (d var))"

definition global_solution :: "crossword \<Rightarrow> domains \<Rightarrow> assignment \<Rightarrow> bool" where
  "global_solution cw d a \<longleftrightarrow> valid_solution cw a \<and> drawn_from d a"

text \<open>
  The variant of the AC-3 loop: the number of words in all domains, weighted so that
  one removed word pays for the arcs that are put back on the worklist.
\<close>

definition domain_total :: "crossword \<Rightarrow> domains \<Rightarrow> nat" where
  "domain_total cw d = sum_list (map (\<lambda>var. length (d var)) (variables cw))"

definition ac3_variant :: "crossword \<Rightarrow> domains \<Rightarrow> arc list \<Rightarrow> nat" where
  "ac3_variant cw d queue =
     domain_total cw d * Suc (length (variables cw)) + length queue"

text \<open>The keys of an assignment are slots of the crossword, each at most once.\<close>

definition slot_dict :: "crossword \<Rightarrow> assignment \<Rightarrow> bool" where
  "slot_dict cw a \<longleftrightarrow> distinct (map fst a) \<and> set (map fst a) \<subseteq> set (variables cw)"

text \<open>What a returning call establishes, for \<open>backtrack\<close> and for its loop.\<close>

definition backtrack_post ::
  "crossword \<Rightarrow> domains \<Rightarrow> assignment \<Rightarrow> assignment option \<times> domains \<times> assignment \<Rightarrow> bool" where
  "backtrack_post cw d a out \<longleftrightarrow>
     (case out of (res, d', a') \<Rightarrow>
        d' = d \<and> set (map fst a) \<subseteq> set (map fst a') \<and>
        (slot_dict cw a \<longrightarrow> slot_dict cw a') \<and>
        (\<forall>r. res = Some r \<longrightarrow>
           r = a' \<and> assignment_complete cw r \<and> (r = a \<or> consistent cw r = Inr True)))"

definition try_values_post ::
  "crossword \<Rightarrow> domains \<Rightarrow> variable \<Rightarrow> assignment \<Rightarrow> assignment option \<times> domains \<times> assignment \<Rightarrow> bool" where
  "try_values_post cw d var a out \<longleftrightarrow>
     (case out of (res, d', a') \<Rightarrow>
        d' = d \<and> set (map fst a) - {var} \<subseteq> set (map fst a') \<and>
        (slot_dict cw a \<and> var \<in> set (variables cw) \<longrightarrow> slot_dict cw a') \<and>
        (\<forall>r. res = Some r \<longrightarrow>
           r = a' \<and> assignment_complete cw r \<and> consistent cw r = Inr True))"

text \<open>The slots of an assignment that are still unassigned.\<close>

definition unassigned :: "crossword \<Rightarrow> assignment \<Rightarrow> variable list" where
  "unassigned cw a = filter (\<lambda>var. var \<notin> set (map fst a)) (remdups (variables cw))"

subsection \<open>A two-slot crossword\<close>

text \<open>
  The grid has two rows: \<open>__\<close> and \<open>#_\<close>. Its slots are the first row and the second
  column; the second cell of the row is the first cell of the column.
\<close>

definition slot_across :: variable where
  "slot_across = Variable 0 0 ACROSS 2"

definition slot_down :: variable where
  "slot_down = Variable 0 1 DOWN 2"

definition corner_overlaps :: "variable \<times> variable \<Rightarrow> (nat \<times> nat) option" where
  "corner_overlaps p =
     (if p = (slot_across, slot_down) then Some (1, 0)
      else if p = (slot_down, slot_across) then Some (0, 1)
      else None)"

definition corner :: "string list \<Rightarrow> crossword" where
  "corner ws = \<lparr>variables = [slot_across, slot_down], words = ws, overlaps = corner_overlaps\<rparr>"

definition corner_words :: "string list" where
  "corner_words = [''CD'', ''AA'', ''BC'']"

text \<open>The domain store of that crossword after node consistency.\<close>

definition corner_domains :: domains where
  "corner_domains =
     enforce_node_consistency (corner corner_words) (init_domains (corner corner_words))"

text \<open>A word list for which the first revision empties the domain of the across slot.\<close>

definition blocked_words :: "string list" where
  "blocked_words = [''CD'', ''AB'']"

definition blocked_domains :: domains where
  "blocked_domains =
     enforce_node_consistency (corner blocked_words) (init_domains (corner blocked_words))"

text \<open>A solution of the two-slot crossword with the word list \<open>corner_words\<close>.\<close>

definition corner_solution :: assignment where
  "corner_solution = [(slot_across, ''BC''), (slot_down, ''CD'')]"

text \<open>A word list with which the search fills the two slots.\<close>

definition solvable_words :: "string list" where
  "solvable_words = [''BC'', ''CD'']"

subsection \<open>A three-slot crossword\<close>

text \<open>
  The grid has three rows: \<open>___\<close>, \<open>_##\<close> and \<open>___\<close>. Its slots are the first row, the
  last row and the first column; the column starts in the first cell of the first row and
  ends in the first cell of the last row. The two rows do not cross. The order of the
  slots and of the words is left open.
\<close>

definition slot_top :: variable where
  "slot_top = Variable 0 0 ACROSS 3"

definition slot_stem :: variable where
  "slot_stem = Variable 0 0 DOWN 3"

definition slot_bottom :: variable where
  "slot_bottom = Variable 2 0 ACROSS 3"

definition fork_overlaps :: "variable \<times> variable \<Rightarrow> (nat \<times> nat) option" where
  "fork_overlaps p =
     (if p = (slot_top, slot_stem) then Some (0, 0)
      else if p = (slot_stem, slot_top) then Some (0, 0)
      else if p = (slot_stem, slot_bottom) then Some (2, 0)
      else if p = (slot_bottom, slot_stem) then Some (0, 2)
      else None)"

definition fork :: "variable list \<Rightarrow> string list \<Rightarrow> crossword" where
  "fork vs ws = \<lparr>variables = vs, words = ws, overlaps = fork_overlaps\<rparr>"

definition fork_slots :: "variable list" where
  "fork_slots = [slot_top, slot_stem, slot_bottom]"

text \<open>The six orders in which the set of the three slots can be iterated.\<close>

definition slot_orders :: "variable list list" where
  "slot_orders =
     [[slot_top, slot_stem, slot_bottom], [slot_top, slot_bottom, slot_stem],
      [slot_stem, slot_top, slot_bottom], [slot_stem, slot_bottom, slot_top],
      [slot_bottom, slot_top, slot_stem], [slot_bottom, slot_stem, slot_top]]"

text \<open>A word list with which the crossword has a solution, and its six orders.\<close>

definition tea_words :: "string list" where
  "tea_words = [''ACT'', ''TEA'', ''TOT'']"

definition word_orders :: "string list list" where
  "word_orders =
     [[''ACT'', ''TEA'', ''TOT''], [''ACT'', ''TOT'', ''TEA''],
      [''TEA'', ''ACT'', ''TOT''], [''TEA'', ''TOT'', ''ACT''],
      [''TOT'', ''ACT'', ''TEA''], [''TOT'', ''TEA'', ''ACT'']]"

definition tea_solution :: assignment where
  "tea_solution = [(slot_top, ''TOT''), (slot_stem, ''TEA''), (slot_bottom, ''ACT'')]"

text \<open>The word list of the scenario in section 8 of the specification.\<close>

definition pet_words :: "string list" where
  "pet_words = [''CAT'', ''DOG'', ''TIC'']"

section \<open>Proofs\<close>

subsection \<open>Overlaps, neighbours and \<open>revise\<close>\<close>

lemma overlap_entry_Inr:
  "overlap_entry cw x y = Inr r \<longleftrightarrow>
     x \<in> set (variables cw) \<and> y \<in> set (variables cw) \<and> x \<noteq> y \<and> r = overlaps cw (x, y)"
  by (auto simp: overlap_entry_def)

lemma neighbors_of_Inr:
  "neighbors_of cw var vs = Inr ns \<Longrightarrow>
     ns = filter (\<lambda>v. v \<noteq> var \<and> (\<exists>ij. overlap_entry cw v var = Inr (Some ij))) vs"
proof (induction vs arbitrary: ns)
  case Nil
  then show ?case by simp
next
  case (Cons v vs)
  then show ?case
    by (auto split: if_splits sum.splits option.splits)
qed

lemma neighbors_Inr:
  assumes "neighbors cw var = Inr ns"
  shows "set ns \<subseteq> set (variables cw)"
    and "length ns \<le> length (variables cw)"
    and "v \<in> set ns \<longleftrightarrow>
           v \<in> set (variables cw) \<and> var \<in> set (variables cw) \<and> v \<noteq> var \<and> overlaps cw (v, var) \<noteq> None"
proof -
  have ns: "ns = filter (\<lambda>v. v \<noteq> var \<and> (\<exists>ij. overlap_entry cw v var = Inr (Some ij))) (variables cw)"
    using assms neighbors_of_Inr by (simp add: neighbors_def)
  show "set ns \<subseteq> set (variables cw)" by (auto simp: ns)
  show "length ns \<le> length (variables cw)" by (simp add: ns)
  show "v \<in> set ns \<longleftrightarrow>
           v \<in> set (variables cw) \<and> var \<in> set (variables cw) \<and> v \<noteq> var \<and> overlaps cw (v, var) \<noteq> None"
    by (auto simp: ns overlap_entry_def)
qed

lemma neighbors_of_total:
  "var \<in> set (variables cw) \<Longrightarrow> set vs \<subseteq> set (variables cw) \<Longrightarrow> \<exists>ns. neighbors_of cw var vs = Inr ns"
proof (induction vs)
  case Nil
  then show ?case by simp
next
  case (Cons v vs)
  then obtain ns where "neighbors_of cw var vs = Inr ns" by auto
  with Cons.prems show ?case
    by (cases "overlaps cw (v, var)") (auto simp: overlap_entry_def)
qed

lemma neighbors_total:
  "var \<in> set (variables cw) \<Longrightarrow> \<exists>ns. neighbors cw var = Inr ns"
  unfolding neighbors_def by (rule neighbors_of_total) auto

lemma has_match_iff:
  "has_match w i j ys \<longleftrightarrow> (\<exists>wy \<in> set ys. agree (i, j) w wy)"
  by (induction ys) (auto simp: agree_def)

lemma inconsistent_x_eq:
  "inconsistent_x i j dy xs = filter (\<lambda>w. \<not> has_match w i j dy) xs"
  by (induction xs) auto

lemma set_minus_inconsistent:
  "set_minus xs (inconsistent_x i j dy xs) = filter (\<lambda>w. has_match w i j dy) xs"
  by (auto simp: set_minus_def inconsistent_x_eq intro: filter_cong)

lemma inconsistent_x_nonempty:
  "inconsistent_x i j dy xs \<noteq> [] \<longleftrightarrow> (\<exists>w \<in> set xs. \<not> has_match w i j dy)"
  by (simp add: inconsistent_x_eq filter_empty_conv)

lemma revise_Inr:
  assumes "revise cw d x y = Inr (revised, d')"
  shows "x \<in> set (variables cw)" and "y \<in> set (variables cw)" and "x \<noteq> y"
    and "\<And>z. z \<noteq> x \<Longrightarrow> d' z = d z"
    and "case overlaps cw (x, y) of
           None \<Rightarrow> d' = d \<and> \<not> revised
         | Some (i, j) \<Rightarrow>
             d' x = filter (\<lambda>w. has_match w i j (d y)) (d x) \<and>
             (revised \<longleftrightarrow> (\<exists>w \<in> set (d x). \<not> has_match w i j (d y)))"
  using assms
  by (auto simp: revise_def overlap_entry_def Let_def set_minus_inconsistent inconsistent_x_nonempty
      split: if_splits option.splits)

lemma revise_False:
  assumes "revise cw d x y = Inr (False, d')"
  shows "d' = d"
proof (cases "overlaps cw (x, y)")
  case None
  with revise_Inr(5)[OF assms] show ?thesis by simp
next
  case (Some ij)
  obtain i j where ij: "ij = (i, j)" by (cases ij)
  from revise_Inr(5)[OF assms] Some ij
  have "d' x = filter (\<lambda>w. has_match w i j (d y)) (d x)" and "\<forall>w \<in> set (d x). has_match w i j (d y)"
    by auto
  then have "d' x = d x" by simp
  with revise_Inr(4)[OF assms] show ?thesis by (intro ext) metis
qed

lemma revise_True:
  assumes "revise cw d x y = Inr (True, d')"
  shows "length (d' x) < length (d x)"
proof (cases "overlaps cw (x, y)")
  case None
  with revise_Inr(5)[OF assms] show ?thesis by simp
next
  case (Some ij)
  obtain i j where ij: "ij = (i, j)" by (cases ij)
  from revise_Inr(5)[OF assms] Some ij
  have "d' x = filter (\<lambda>w. has_match w i j (d y)) (d x)" and "\<exists>w \<in> set (d x). \<not> has_match w i j (d y)"
    by auto
  then show ?thesis by (auto intro: length_filter_less)
qed

lemma sum_list_strict:
  "\<forall>v \<in> set vs. f v \<le> (g v :: nat) \<Longrightarrow> \<exists>v \<in> set vs. f v < g v \<Longrightarrow>
     sum_list (map f vs) < sum_list (map g vs)"
proof (induction vs)
  case Nil
  then show ?case by simp
next
  case (Cons v vs)
  have le: "sum_list (map f vs) \<le> sum_list (map g vs)"
    using Cons.prems(1) by (intro sum_list_mono) simp
  show ?case
  proof (cases "f v < g v")
    case True
    with le show ?thesis by simp
  next
    case False
    with Cons.prems have "\<exists>v \<in> set vs. f v < g v" and "f v \<le> g v" by auto
    with Cons.IH Cons.prems(1) show ?thesis by simp
  qed
qed

lemma revise_True_total:
  assumes "revise cw d x y = Inr (True, d')"
  shows "domain_total cw d' < domain_total cw d"
  unfolding domain_total_def
proof (rule sum_list_strict)
  show "\<forall>v \<in> set (variables cw). length (d' v) \<le> length (d v)"
    using revise_True[OF assms] revise_Inr(4)[OF assms] by (metis less_imp_le order_refl)
  show "\<exists>v \<in> set (variables cw). length (d' v) < length (d v)"
    using revise_True[OF assms] revise_Inr(1)[OF assms] by blast
qed

lemma neighbors_except_Inr:
  assumes "neighbors_except cw x y = Inr ns"
  shows "length ns \<le> length (variables cw)"
    and "z \<in> set ns \<longleftrightarrow>
           z \<in> set (variables cw) \<and> x \<in> set (variables cw) \<and> z \<noteq> x \<and> z \<noteq> y \<and> overlaps cw (z, x) \<noteq> None"
    and "overlaps cw (y, x) \<noteq> None"
proof -
  from assms obtain ns0 where ns0: "neighbors cw x = Inr ns0" and y: "y \<in> set ns0" and ns: "ns = removeAll y ns0"
    by (auto simp: neighbors_except_def split: sum.splits if_splits)
  have "length ns \<le> length ns0" unfolding ns by (simp add: removeAll_filter_not_eq)
  with neighbors_Inr(2)[OF ns0] show "length ns \<le> length (variables cw)" by simp
  show "z \<in> set ns \<longleftrightarrow>
           z \<in> set (variables cw) \<and> x \<in> set (variables cw) \<and> z \<noteq> x \<and> z \<noteq> y \<and> overlaps cw (z, x) \<noteq> None"
    using neighbors_Inr(3)[OF ns0, of z] by (auto simp: ns)
  show "overlaps cw (y, x) \<noteq> None" using neighbors_Inr(3)[OF ns0, of y] y by simp
qed

lemma ac3_loop_Nil: "ac3_loop cw d [] = Some (Inr (True, d, []))"
  by (subst ac3_loop.simps) simp

lemma ac3_loop_Cons:
  "ac3_loop cw d ((x, y) # rest) =
     (case revise cw d x y of
        Inl e \<Rightarrow> Some (Inl e)
      | Inr (revised, d') \<Rightarrow>
          if revised then
            (if d' x = [] then Some (Inr (False, d', rest))
             else
               (case neighbors_except cw x y of
                  Inl e \<Rightarrow> Some (Inl e)
                | Inr x_neighbors \<Rightarrow>
                    ac3_loop cw d' (rest @ map (\<lambda>neighbor. (neighbor, x)) x_neighbors)))
          else ac3_loop cw d' rest)"
  by (subst ac3_loop.simps) (simp split: sum.splits prod.splits)

lemma ac3_variant_revised:
  assumes "revise cw d x y = Inr (True, d')" and "neighbors_except cw x y = Inr ns"
  shows "ac3_variant cw d' (rest @ map (\<lambda>neighbor. (neighbor, x)) ns) < ac3_variant cw d ((x, y) # rest)"
proof -
  let ?K = "length (variables cw)"
  have "Suc (domain_total cw d') \<le> domain_total cw d"
    using revise_True_total[OF assms(1)] by simp
  then have "Suc (domain_total cw d') * Suc ?K \<le> domain_total cw d * Suc ?K"
    by (rule mult_le_mono1)
  moreover have "length ns \<le> ?K" by (rule neighbors_except_Inr(1)[OF assms(2)])
  ultimately show ?thesis by (simp add: ac3_variant_def)
qed

lemma ac3_variant_unrevised:
  assumes "revise cw d x y = Inr (False, d')"
  shows "ac3_variant cw d' rest < ac3_variant cw d ((x, y) # rest)"
  using revise_False[OF assms] by (simp add: ac3_variant_def)

lemma ac3_loop_induct [case_names Nil Cons]:
  assumes nil: "\<And>d. P d []"
    and step: "\<And>d x y rest.
      (\<And>d'. revise cw d x y = Inr (False, d') \<Longrightarrow> P d' rest) \<Longrightarrow>
      (\<And>d' ns. revise cw d x y = Inr (True, d') \<Longrightarrow> d' x \<noteq> [] \<Longrightarrow>
          neighbors_except cw x y = Inr ns \<Longrightarrow> P d' (rest @ map (\<lambda>neighbor. (neighbor, x)) ns)) \<Longrightarrow>
      P d ((x, y) # rest)"
  shows "P d queue"
proof (induction "ac3_variant cw d queue" arbitrary: d queue rule: less_induct)
  case less
  show ?case
  proof (cases queue)
    case Nil
    then show ?thesis by (simp add: nil)
  next
    case (Cons arc rest)
    obtain x y where arc: "arc = (x, y)" by (cases arc)
    show ?thesis unfolding Cons arc
    proof (rule step)
      fix d' assume "revise cw d x y = Inr (False, d')"
      then show "P d' rest"
        using ac3_variant_unrevised less.hyps unfolding Cons arc by blast
    next
      fix d' ns
      assume "revise cw d x y = Inr (True, d')" and "neighbors_except cw x y = Inr ns"
      then show "P d' (rest @ map (\<lambda>neighbor. (neighbor, x)) ns)"
        using ac3_variant_revised less.hyps unfolding Cons arc by blast
    qed
  qed
qed

lemma ac3_loop_returns: "\<exists>r. ac3_loop cw d queue = Some r"
proof (induction d queue rule: ac3_loop_induct[where cw = cw])
  case (Nil d)
  show ?case by (simp add: ac3_loop_Nil)
next
  case (Cons d x y rest)
  show ?case
  proof (cases "revise cw d x y")
    case (Inl e)
    then show ?thesis by (simp add: ac3_loop_Cons)
  next
    case (Inr r)
    obtain revised d' where r: "r = (revised, d')" by (cases r)
    show ?thesis
    proof (cases revised)
      case False
      with Inr r Cons(1) show ?thesis by (simp add: ac3_loop_Cons)
    next
      case True
      show ?thesis
      proof (cases "neighbors_except cw x y")
        case (Inl e)
        with Inr r True show ?thesis by (simp add: ac3_loop_Cons)
      next
        case ns: (Inr ns)
        with Inr r True Cons(2)[of d' ns] show ?thesis by (cases "d' x = []") (simp_all add: ac3_loop_Cons)
      qed
    qed
  qed
qed

lemma ac3_returns: "\<exists>r. ac3 cw d arcs = Some r"
proof (cases arcs)
  case None
  show ?thesis
  proof (cases "initial_queue cw (variables cw)")
    case (Inl e)
    with None show ?thesis by (simp add: ac3_def)
  next
    case (Inr queue)
    obtain r where "ac3_loop cw d queue = Some r" using ac3_loop_returns by blast
    with None Inr show ?thesis by (cases r) (auto simp: ac3_def)
  qed
next
  case (Some queue)
  obtain r where "ac3_loop cw d queue = Some r" using ac3_loop_returns by blast
  with Some show ?thesis by (cases r) (auto simp: ac3_def)
qed

subsection \<open>Node consistency\<close>

lemma consistent_var_filter:
  "consistent_var var ws = filter (\<lambda>w. int (length w) = var_length var) ws"
  by (induction ws) auto

lemma node_consistency_loop_apply:
  "node_consistency_loop vs d s =
     (if s \<in> set vs then consistent_var s (d s) else d s)"
  by (induction vs arbitrary: d) (auto simp: consistent_var_filter)

text \<open>
  Claim C7. After \<open>enforce_node_consistency\<close> the domain of every slot \<open>s\<close> is
  exactly the set of the words of its previous domain whose length is the length of
  \<open>s\<close>: every remaining word has that length, and no word of that length is removed.
\<close>

theorem node_consistency_exact:
  "\<forall>s \<in> set (variables cw).
     set (enforce_node_consistency cw d s) = {w \<in> set (d s). int (length w) = var_length s}"
  by (auto simp: enforce_node_consistency_def node_consistency_loop_apply consistent_var_filter)

theorem node_consistency_exact_witness:
  "set (enforce_node_consistency (corner [''CD'', ''CAT'', ''AA''])
          (init_domains (corner [''CD'', ''CAT'', ''AA''])) slot_across)
     = {''CD'', ''AA''}"
proof -
  let ?cw = "corner [''CD'', ''CAT'', ''AA'']"
  have "slot_across \<in> set (variables ?cw)"
    by (simp add: corner_def)
  from bspec[OF node_consistency_exact this, of "init_domains ?cw"]
  have "set (enforce_node_consistency ?cw (init_domains ?cw) slot_across)
          = {w \<in> set (init_domains ?cw slot_across). int (length w) = var_length slot_across}" .
  also have "\<dots> = set (filter (\<lambda>w. int (length w) = 2) [''CD'', ''CAT'', ''AA''])"
    by (simp only: set_filter init_domains_def corner_def crossword.simps slot_across_def variable.sel)
  also have "\<dots> = {''CD'', ''AA''}"
    by simp
  finally show ?thesis .
qed

subsection \<open>Termination of AC-3\<close>

text \<open>
  Claim C9. The worklist loop of \<open>ac3\<close> returns for every crossword, every domain
  store and every initial worklist. A call of \<open>revise\<close> that reports a change
  strictly shrinks the domain of \<open>x\<close> and leaves the other domains alone, so every
  iteration of the loop that goes on decreases the variant \<open>ac3_variant\<close>, whether it
  puts arcs back on the worklist or not.
\<close>

theorem ac3_terminates:
  "(\<exists>r. ac3 cw d arcs = Some r) \<and>
   (\<forall>x y d'. revise cw d x y = Inr (True, d') \<longrightarrow>
      length (d' x) < length (d x) \<and> (\<forall>z. z \<noteq> x \<longrightarrow> d' z = d z)) \<and>
   (\<forall>x y rest d' ns. revise cw d x y = Inr (True, d') \<and> neighbors_except cw x y = Inr ns \<longrightarrow>
      ac3_variant cw d' (rest @ map (\<lambda>neighbor. (neighbor, x)) ns) < ac3_variant cw d ((x, y) # rest)) \<and>
   (\<forall>x y rest d'. revise cw d x y = Inr (False, d') \<longrightarrow>
      ac3_variant cw d' rest < ac3_variant cw d ((x, y) # rest))"
proof (intro conjI allI impI)
  show "\<exists>r. ac3 cw d arcs = Some r" by (rule ac3_returns)
next
  fix x y d' assume "revise cw d x y = Inr (True, d')"
  then show "length (d' x) < length (d x)" by (rule revise_True)
next
  fix x y d' z assume "revise cw d x y = Inr (True, d')" and "z \<noteq> x"
  then show "d' z = d z" by (rule revise_Inr(4))
next
  fix x y rest d' ns
  assume "revise cw d x y = Inr (True, d') \<and> neighbors_except cw x y = Inr ns"
  then show "ac3_variant cw d' (rest @ map (\<lambda>neighbor. (neighbor, x)) ns) < ac3_variant cw d ((x, y) # rest)"
    using ac3_variant_revised by blast
next
  fix x y rest d' assume "revise cw d x y = Inr (False, d')"
  then show "ac3_variant cw d' rest < ac3_variant cw d ((x, y) # rest)"
    by (rule ac3_variant_unrevised)
qed

lemma corner_revise:
  "map_sum id (\<lambda>(revised, d'). (revised, d' slot_across))
     (revise (corner corner_words) corner_domains slot_across slot_down) = Inr (True, [''AA'', ''BC''])"
  by code_simp

theorem ac3_terminates_witness:
  "(\<exists>r. ac3 (corner corner_words) corner_domains None = Some r) \<and>
   (\<exists>d'. revise (corner corner_words) corner_domains slot_across slot_down = Inr (True, d') \<and>
      length (d' slot_across) < length (corner_domains slot_across))"
proof -
  obtain d' where r: "revise (corner corner_words) corner_domains slot_across slot_down = Inr (True, d')"
    using corner_revise
    by (cases "revise (corner corner_words) corner_domains slot_across slot_down") auto
  with ac3_terminates[of "corner corner_words" corner_domains None] show ?thesis
    by blast
qed

subsection \<open>The steps of the AC-3 loop\<close>

lemma ac3_loop_fail:
  "revise cw d x y = Inr (True, d') \<Longrightarrow> d' x = [] \<Longrightarrow>
     ac3_loop cw d ((x, y) # rest) = Some (Inr (False, d', rest))"
  by (simp add: ac3_loop_Cons)

lemma ac3_loop_requeue:
  "revise cw d x y = Inr (True, d') \<Longrightarrow> d' x \<noteq> [] \<Longrightarrow> neighbors_except cw x y = Inr ns \<Longrightarrow>
     ac3_loop cw d ((x, y) # rest) = ac3_loop cw d' (rest @ map (\<lambda>neighbor. (neighbor, x)) ns)"
  by (simp add: ac3_loop_Cons)

lemma ac3_loop_skip:
  "revise cw d x y = Inr (False, d') \<Longrightarrow> ac3_loop cw d ((x, y) # rest) = ac3_loop cw d rest"
  using revise_False[of cw d x y d'] by (simp add: ac3_loop_Cons)

lemma ac3_loop_cases:
  assumes "ac3_loop cw d ((x, y) # rest) = Some (Inr res)"
  obtains (fail) d' where "revise cw d x y = Inr (True, d')" "d' x = []" "res = (False, d', rest)"
  | (requeue) d' ns where "revise cw d x y = Inr (True, d')" "d' x \<noteq> []"
      "neighbors_except cw x y = Inr ns"
      "ac3_loop cw d' (rest @ map (\<lambda>neighbor. (neighbor, x)) ns) = Some (Inr res)"
  | (skip) "revise cw d x y = Inr (False, d)" "ac3_loop cw d rest = Some (Inr res)"
proof (cases "revise cw d x y")
  case (Inl e)
  with assms show ?thesis by (simp add: ac3_loop_Cons)
next
  case (Inr r)
  obtain revised d' where r: "r = (revised, d')" by (cases r)
  show ?thesis
  proof (cases revised)
    case False
    with Inr r have rv: "revise cw d x y = Inr (False, d')" by simp
    then have "d' = d" by (rule revise_False)
    with rv assms skip show ?thesis by (simp add: ac3_loop_Cons)
  next
    case True
    with Inr r have rv: "revise cw d x y = Inr (True, d')" by simp
    show ?thesis
    proof (cases "d' x = []")
      case True
      with rv assms fail show ?thesis by (simp add: ac3_loop_Cons)
    next
      case False
      show ?thesis
      proof (cases "neighbors_except cw x y")
        case (Inl e)
        with rv False assms show ?thesis by (simp add: ac3_loop_Cons)
      next
        case ns: (Inr ns)
        with rv False assms requeue show ?thesis by (simp add: ac3_loop_Cons)
      qed
    qed
  qed
qed

lemma ac3_loop_True_drained:
  "ac3_loop cw d queue = Some (Inr (True, d', q')) \<Longrightarrow> q' = []"
proof (induction d queue rule: ac3_loop_induct[where cw = cw])
  case (Nil d)
  then show ?case by (simp add: ac3_loop_Nil)
next
  case (Cons d x y rest)
  from Cons.prems show ?case
  proof (cases rule: ac3_loop_cases)
    case (fail d1)
    then show ?thesis by simp
  next
    case (requeue d1 ns)
    then show ?thesis using Cons.IH(2) by blast
  next
    case skip
    then show ?thesis using Cons.IH(1) by blast
  qed
qed


lemma overlaps_symmetricD:
  "overlaps_symmetric cw \<Longrightarrow> x \<in> set (variables cw) \<Longrightarrow> y \<in> set (variables cw) \<Longrightarrow> x \<noteq> y \<Longrightarrow>
     overlaps cw (y, x) = map_option prod.swap (overlaps cw (x, y))"
  unfolding overlaps_symmetric_def by blast


lemma blocked_revise:
  "map_sum id (\<lambda>(revised, d'). (revised, d' slot_across))
     (revise (corner blocked_words) blocked_domains slot_across slot_down) = Inr (True, [])"
  by code_simp

lemma pet_revise_stem:
  "map_sum id (\<lambda>(revised, d'). (revised, d' slot_stem))
     (revise (fork fork_slots pet_words) (init_domains (fork fork_slots pet_words)) slot_stem slot_bottom)
   = Inr (True, [''CAT'', ''TIC''])"
  by code_simp

lemma pet_neighbors_except:
  "neighbors_except (fork fork_slots pet_words) slot_stem slot_bottom = Inr [slot_top]"
  by code_simp




lemma ac3_Some:
  "ac3 cw d (Some queue) =
     (case ac3_loop cw d queue of
        None \<Rightarrow> None
      | Some (Inl e) \<Rightarrow> Some (Inl e)
      | Some (Inr (ok, d', q')) \<Rightarrow> Some (Inr (ok, d', Some q')))"
  by (simp add: ac3_def)

lemma ac3_Some_Inr:
  "ac3 cw d (Some queue) = Some (Inr (ok, d', arcs')) \<longleftrightarrow>
     (\<exists>q'. arcs' = Some q' \<and> ac3_loop cw d queue = Some (Inr (ok, d', q')))"
  by (auto simp: ac3_Some split: option.splits sum.splits)

text \<open>
  Claim C10. With an explicit \<open>arcs\<close> argument the worklist of \<open>ac3\<close> is the caller's
  list itself: what the caller's list holds after the call is the worklist as the loop
  left it. Each processed arc is popped from the front and the new arcs \<open>(z, x)\<close> are
  appended to it; on success the caller's list is empty, and on failure it holds the
  arcs that were still pending behind the arc whose revision emptied a domain.
\<close>

theorem ac3_adopts_arcs:
  "(ac3 cw d (Some queue) = Some (Inr (ok, d1, arcs1)) \<longleftrightarrow>
      (\<exists>q1. arcs1 = Some q1 \<and> ac3_loop cw d queue = Some (Inr (ok, d1, q1)))) \<and>
   (ac3 cw d (Some queue) = Some (Inr (True, d1, arcs1)) \<longrightarrow> arcs1 = Some []) \<and>
   (revise cw d x y = Inr (True, d') \<and> d' x = [] \<longrightarrow>
      ac3 cw d (Some ((x, y) # rest)) = Some (Inr (False, d', Some rest))) \<and>
   (revise cw d x y = Inr (True, d') \<and> d' x \<noteq> [] \<and> neighbors_except cw x y = Inr ns \<longrightarrow>
      ac3 cw d (Some ((x, y) # rest)) = ac3 cw d' (Some (rest @ map (\<lambda>z. (z, x)) ns))) \<and>
   (revise cw d x y = Inr (False, d') \<longrightarrow>
      ac3 cw d (Some ((x, y) # rest)) = ac3 cw d (Some rest)) \<and>
   ac3 cw d (Some []) = Some (Inr (True, d, Some []))"
proof (intro conjI impI)
  show "ac3 cw d (Some queue) = Some (Inr (ok, d1, arcs1)) \<longleftrightarrow>
      (\<exists>q1. arcs1 = Some q1 \<and> ac3_loop cw d queue = Some (Inr (ok, d1, q1)))"
    by (rule ac3_Some_Inr)
next
  assume "ac3 cw d (Some queue) = Some (Inr (True, d1, arcs1))"
  then obtain q1 where "arcs1 = Some q1" and "ac3_loop cw d queue = Some (Inr (True, d1, q1))"
    unfolding ac3_Some_Inr by blast
  then show "arcs1 = Some []" using ac3_loop_True_drained by blast
next
  assume "revise cw d x y = Inr (True, d') \<and> d' x = []"
  then show "ac3 cw d (Some ((x, y) # rest)) = Some (Inr (False, d', Some rest))"
    by (simp add: ac3_Some ac3_loop_fail)
next
  assume "revise cw d x y = Inr (True, d') \<and> d' x \<noteq> [] \<and> neighbors_except cw x y = Inr ns"
  then show "ac3 cw d (Some ((x, y) # rest)) = ac3 cw d' (Some (rest @ map (\<lambda>z. (z, x)) ns))"
    by (simp add: ac3_Some ac3_loop_requeue)
next
  assume "revise cw d x y = Inr (False, d')"
  then have "ac3_loop cw d ((x, y) # rest) = ac3_loop cw d rest" by (rule ac3_loop_skip)
  then show "ac3 cw d (Some ((x, y) # rest)) = ac3 cw d (Some rest)"
    by (simp add: ac3_Some)
next
  show "ac3 cw d (Some []) = Some (Inr (True, d, Some []))"
    by (simp add: ac3_Some ac3_loop_Nil)
qed

lemma corner_ac3_arcs:
  "map_option (map_sum id (\<lambda>(ok, d', arcs'). (ok, arcs')))
     (ac3 (corner corner_words) corner_domains (Some [(slot_across, slot_down), (slot_down, slot_across)]))
   = Some (Inr (True, Some []))"
  by code_simp

theorem ac3_adopts_arcs_witness:
  "(\<exists>d'. ac3 (corner corner_words) corner_domains (Some [(slot_across, slot_down), (slot_down, slot_across)])
        = Some (Inr (True, d', Some []))) \<and>
   (\<exists>d'. ac3 (corner blocked_words) blocked_domains (Some [(slot_across, slot_down), (slot_down, slot_across)])
        = Some (Inr (False, d', Some [(slot_down, slot_across)]))) \<and>
   (\<exists>d'. d' slot_stem = [''CAT'', ''TIC''] \<and>
      ac3 (fork fork_slots pet_words) (init_domains (fork fork_slots pet_words))
        (Some [(slot_stem, slot_bottom), (slot_bottom, slot_stem)])
      = ac3 (fork fork_slots pet_words) d' (Some [(slot_bottom, slot_stem), (slot_top, slot_stem)]))"
proof (intro conjI)
  let ?r = "ac3 (corner corner_words) corner_domains (Some [(slot_across, slot_down), (slot_down, slot_across)])"
  obtain d' arcs' where r: "?r = Some (Inr (True, d', arcs'))"
    using corner_ac3_arcs by (cases ?r) (auto simp: map_sum_def split: sum.splits)
  with ac3_adopts_arcs[of "corner corner_words" corner_domains
      "[(slot_across, slot_down), (slot_down, slot_across)]" True d' arcs']
  have "arcs' = Some []" by blast
  with r show "\<exists>d'. ?r = Some (Inr (True, d', Some []))" by blast
next
  obtain d' where r: "revise (corner blocked_words) blocked_domains slot_across slot_down = Inr (True, d')"
    and d': "d' slot_across = []"
    using blocked_revise
    by (cases "revise (corner blocked_words) blocked_domains slot_across slot_down") auto
  from ac3_adopts_arcs[of "corner blocked_words" blocked_domains _ _ _ _ slot_across slot_down d'
      "[(slot_down, slot_across)]"] r d'
  show "\<exists>d'. ac3 (corner blocked_words) blocked_domains (Some [(slot_across, slot_down), (slot_down, slot_across)])
        = Some (Inr (False, d', Some [(slot_down, slot_across)]))"
    by blast
next
  let ?cw = "fork fork_slots pet_words" and ?d = "init_domains (fork fork_slots pet_words)"
  obtain d' where r: "revise ?cw ?d slot_stem slot_bottom = Inr (True, d')"
    and d': "d' slot_stem = [''CAT'', ''TIC'']"
    using pet_revise_stem by (cases "revise ?cw ?d slot_stem slot_bottom") auto
  from ac3_adopts_arcs[of ?cw ?d _ _ _ _ slot_stem slot_bottom d' "[(slot_bottom, slot_stem)]" "[slot_top]"]
    r d' pet_neighbors_except
  have "ac3 ?cw ?d (Some [(slot_stem, slot_bottom), (slot_bottom, slot_stem)])
      = ac3 ?cw d' (Some [(slot_bottom, slot_stem), (slot_top, slot_stem)])"
    by simp
  with d' show "\<exists>d'. d' slot_stem = [''CAT'', ''TIC''] \<and>
      ac3 ?cw ?d (Some [(slot_stem, slot_bottom), (slot_bottom, slot_stem)])
      = ac3 ?cw d' (Some [(slot_bottom, slot_stem), (slot_top, slot_stem)])"
    by blast
qed

subsection \<open>Soundness of AC-3\<close>

lemma agree_swap: "agree (i, j) wx wy \<longleftrightarrow> agree (j, i) wy wx"
  by (auto simp: agree_def)

lemma arc_ok_None: "overlaps cw (x, y) = None \<Longrightarrow> arc_ok cw d x y"
  by (simp add: arc_ok_def)

lemma arc_ok_Some:
  "overlaps cw (x, y) = Some ij \<Longrightarrow>
     arc_ok cw d x y \<longleftrightarrow> (\<forall>wx \<in> set (d x). \<exists>wy \<in> set (d y). agree ij wx wy)"
  by (simp add: arc_ok_def)

lemma revise_domain:
  assumes "revise cw d x y = Inr (revised, d')" and "overlaps cw (x, y) = Some (i, j)"
  shows "d' x = filter (\<lambda>w. has_match w i j (d y)) (d x)"
  using revise_Inr(5)[OF assms(1)] assms(2) by simp

lemma revise_subset:
  assumes "revise cw d x y = Inr (revised, d')"
  shows "set (d' z) \<subseteq> set (d z)"
proof (cases "z = x")
  case False
  then show ?thesis using revise_Inr(4)[OF assms] by simp
next
  case True
  show ?thesis
  proof (cases "overlaps cw (x, y)")
    case None
    then show ?thesis using revise_Inr(5)[OF assms] by simp
  next
    case (Some ij)
    obtain i j where "ij = (i, j)" by (cases ij)
    with Some revise_domain[OF assms] True show ?thesis by auto
  qed
qed

lemma arc_ok_revised:
  assumes "revise cw d x y = Inr (revised, d')"
  shows "arc_ok cw d' x y"
proof (cases "overlaps cw (x, y)")
  case None
  then show ?thesis by (rule arc_ok_None)
next
  case (Some ij)
  obtain i j where ij: "ij = (i, j)" by (cases ij)
  have dx: "d' x = filter (\<lambda>w. has_match w i j (d y)) (d x)"
    using revise_domain[OF assms] Some ij by simp
  have dy: "d' y = d y"
    using revise_Inr(3,4)[OF assms] by metis
  show ?thesis
    unfolding arc_ok_Some[OF Some] dx dy ij by (simp add: has_match_iff)
qed

lemma arc_ok_mono:
  assumes "arc_ok cw d a b" and "set (d' a) \<subseteq> set (d a)" and "d' b = d b"
  shows "arc_ok cw d' a b"
proof (cases "overlaps cw (a, b)")
  case None
  then show ?thesis by (rule arc_ok_None)
next
  case (Some ij)
  from assms show ?thesis unfolding arc_ok_Some[OF Some] by auto
qed

lemma arc_ok_reverse:
  assumes sym: "overlaps_symmetric cw"
    and rv: "revise cw d x y = Inr (revised, d')"
    and ok: "arc_ok cw d y x"
  shows "arc_ok cw d' y x"
proof (cases "overlaps cw (y, x)")
  case None
  then show ?thesis by (rule arc_ok_None)
next
  case (Some ji)
  obtain j i where ji: "ji = (j, i)" by (cases ji)
  have "overlaps cw (y, x) = map_option prod.swap (overlaps cw (x, y))"
    using sym revise_Inr(1-3)[OF rv] by (intro overlaps_symmetricD) auto
  with Some ji have xy: "overlaps cw (x, y) = Some (i, j)"
    by (cases "overlaps cw (x, y)") auto
  have dx: "d' x = filter (\<lambda>w. has_match w i j (d y)) (d x)"
    using revise_domain[OF rv xy] .
  have dy: "d' y = d y"
    using revise_Inr(3,4)[OF rv] by metis
  show ?thesis
    unfolding arc_ok_Some[OF Some] ji
  proof
    fix wy assume wy: "wy \<in> set (d' y)"
    with ok obtain wx where wx: "wx \<in> set (d x)" and ag: "agree (j, i) wy wx"
      unfolding arc_ok_Some[OF Some] ji dy by blast
    from ag have "agree (i, j) wx wy" by (simp add: agree_swap)
    with wy have "has_match wx i j (d y)" unfolding has_match_iff dy by blast
    with wx have "wx \<in> set (d' x)" by (simp add: dx)
    with ag show "\<exists>wx \<in> set (d' x). agree (j, i) wy wx" by blast
  qed
qed

lemma ac3_invariant_skip:
  assumes "revise cw d x y = Inr (False, d)" and "ac3_invariant cw d ((x, y) # rest)"
  shows "ac3_invariant cw d rest"
  using arc_ok_revised[OF assms(1)] assms(2) unfolding ac3_invariant_def by auto

lemma ac3_invariant_requeue:
  assumes sym: "overlaps_symmetric cw"
    and rv: "revise cw d x y = Inr (True, d')"
    and ns: "neighbors_except cw x y = Inr ns"
    and inv: "ac3_invariant cw d ((x, y) # rest)"
  shows "ac3_invariant cw d' (rest @ map (\<lambda>neighbor. (neighbor, x)) ns)"
  unfolding ac3_invariant_def
proof (intro ballI impI)
  fix a b
  assume a: "a \<in> set (variables cw)" and b: "b \<in> set (variables cw)" and ab: "a \<noteq> b"
  let ?q = "rest @ map (\<lambda>neighbor. (neighbor, x)) ns"
  from inv a b ab consider "(a, b) = (x, y)" | "(a, b) \<in> set rest" | "arc_ok cw d a b"
    unfolding ac3_invariant_def by auto
  then show "(a, b) \<in> set ?q \<or> arc_ok cw d' a b"
  proof cases
    case 1
    then show ?thesis using arc_ok_revised[OF rv] by simp
  next
    case 2
    then show ?thesis by simp
  next
    case 3
    show ?thesis
    proof (cases "a = x")
      case True
      with ab have "d' b = d b" using revise_Inr(4)[OF rv] by simp
      with 3 revise_subset[OF rv] show ?thesis using arc_ok_mono by blast
    next
      case ax: False
      then have da: "d' a = d a" using revise_Inr(4)[OF rv] by simp
      show ?thesis
      proof (cases "b = x")
        case False
        then have "d' b = d b" using revise_Inr(4)[OF rv] by simp
        with 3 da show ?thesis using arc_ok_mono[of cw d a b d'] by simp
      next
        case bx: True
        show ?thesis
        proof (cases "a = y")
          case True
          with 3 bx show ?thesis using arc_ok_reverse[OF sym rv] by simp
        next
          case ay: False
          show ?thesis
          proof (cases "overlaps cw (a, x)")
            case None
            with bx show ?thesis using arc_ok_None by simp
          next
            case (Some ij)
            with a b bx ax ay have "a \<in> set ns"
              using neighbors_except_Inr(2)[OF ns, of a] by simp
            with bx show ?thesis by auto
          qed
        qed
      qed
    qed
  qed
qed

lemma ac3_loop_sound:
  assumes sym: "overlaps_symmetric cw"
  shows "ac3_invariant cw d queue \<Longrightarrow> ac3_loop cw d queue = Some (Inr (True, d', q')) \<Longrightarrow>
           arc_consistent cw d'"
proof (induction d queue rule: ac3_loop_induct[where cw = cw])
  case (Nil d)
  then show ?case by (simp add: ac3_loop_Nil ac3_invariant_def arc_consistent_def)
next
  case (Cons d x y rest)
  from Cons.prems(2) show ?case
  proof (cases rule: ac3_loop_cases)
    case (fail d1)
    then show ?thesis by simp
  next
    case (requeue d1 ns)
    from ac3_invariant_requeue[OF sym requeue(1,3) Cons.prems(1)] requeue Cons.IH(2)
    show ?thesis by blast
  next
    case skip
    from ac3_invariant_skip[OF skip(1) Cons.prems(1)] skip Cons.IH(1)
    show ?thesis by blast
  qed
qed

lemma initial_queue_set:
  "initial_queue cw vs = Inr q \<Longrightarrow>
     set q = {(v, n). v \<in> set vs \<and> (\<exists>ns. neighbors cw v = Inr ns \<and> n \<in> set ns)}"
proof (induction vs arbitrary: q)
  case Nil
  then show ?case by simp
next
  case (Cons v vs)
  from Cons.prems obtain ns q0 where ns: "neighbors cw v = Inr ns"
    and q0: "initial_queue cw vs = Inr q0" and q: "q = map (\<lambda>neighbor. (v, neighbor)) ns @ q0"
    by (auto split: sum.splits)
  show ?case unfolding q using Cons.IH[OF q0] ns by auto
qed

lemma ac3_invariant_initial:
  assumes sym: "overlaps_symmetric cw" and q: "initial_queue cw (variables cw) = Inr q"
  shows "ac3_invariant cw d q"
  unfolding ac3_invariant_def
proof (intro ballI impI)
  fix a b
  assume a: "a \<in> set (variables cw)" and b: "b \<in> set (variables cw)" and ab: "a \<noteq> b"
  show "(a, b) \<in> set q \<or> arc_ok cw d a b"
  proof (cases "overlaps cw (a, b)")
    case None
    then show ?thesis using arc_ok_None by simp
  next
    case (Some ij)
    have "overlaps cw (b, a) = map_option prod.swap (overlaps cw (a, b))"
      using sym a b ab by (rule overlaps_symmetricD)
    with Some have ba: "overlaps cw (b, a) \<noteq> None" by simp
    obtain ns where ns: "neighbors cw a = Inr ns" using neighbors_total[OF a] by blast
    with ba a b ab have "b \<in> set ns" using neighbors_Inr(3)[OF ns, of b] by auto
    with ns a show ?thesis unfolding initial_queue_set[OF q] by blast
  qed
qed

lemma ac3_None_Inr:
  "ac3 cw d None = Some (Inr (ok, d', arcs')) \<longleftrightarrow>
     (\<exists>q q'. initial_queue cw (variables cw) = Inr q \<and> arcs' = None \<and>
        ac3_loop cw d q = Some (Inr (ok, d', q')))"
  by (auto simp: ac3_def split: option.splits sum.splits)

text \<open>
  Claim C4. Whenever \<open>ac3()\<close>, called without arcs on a crossword whose overlap
  relation is symmetric under index swap, returns \<open>True\<close>, then for every ordered pair
  of slots \<open>(x, y)\<close> with a registered overlap \<open>(i, j)\<close>, every word \<open>wx\<close> left in the
  domain of \<open>x\<close> has a word \<open>wy\<close> in the domain of \<open>y\<close> with \<open>wx[i] = wy[j]\<close>.
\<close>

theorem ac3_sound:
  assumes "overlaps_symmetric cw"
    and "ac3 cw d None = Some (Inr (True, d', arcs'))"
  shows "\<forall>x \<in> set (variables cw). \<forall>y \<in> set (variables cw). \<forall>i j.
           x \<noteq> y \<and> overlaps cw (x, y) = Some (i, j) \<longrightarrow>
           (\<forall>wx \<in> set (d' x). \<exists>wy \<in> set (d' y).
              i < length wx \<and> j < length wy \<and> wx ! i = wy ! j)"
proof -
  from assms(2) obtain q q' where q: "initial_queue cw (variables cw) = Inr q"
    and l: "ac3_loop cw d q = Some (Inr (True, d', q'))"
    unfolding ac3_None_Inr by blast
  have "arc_consistent cw d'"
    using ac3_loop_sound[OF assms(1) ac3_invariant_initial[OF assms(1) q] l] .
  then show ?thesis
    unfolding arc_consistent_def arc_ok_def agree_def by fastforce
qed

lemma corner_symmetric: "overlaps_symmetric (corner ws)"
  unfolding overlaps_symmetric_def
  by (simp add: corner_def corner_overlaps_def slot_across_def slot_down_def)

lemma corner_ac3:
  "map_option (map_sum id (\<lambda>(ok, d', arcs'). (ok, d' slot_across, d' slot_down, arcs')))
     (ac3 (corner corner_words) corner_domains None)
   = Some (Inr (True, [''AA'', ''BC''], [''CD'', ''AA''], None))"
  by code_simp

lemma corner_ac3_obtain:
  obtains d' where "ac3 (corner corner_words) corner_domains None = Some (Inr (True, d', None))"
    and "d' slot_across = [''AA'', ''BC'']" and "d' slot_down = [''CD'', ''AA'']"
proof -
  let ?r = "ac3 (corner corner_words) corner_domains None"
  from corner_ac3 obtain res where "?r = Some (Inr res)"
    by (cases ?r) (auto simp: map_sum_def split: sum.splits)
  with corner_ac3 that show ?thesis by (cases res) auto
qed

theorem ac3_sound_witness:
  "\<exists>d'. ac3 (corner corner_words) corner_domains None = Some (Inr (True, d', None)) \<and>
      d' slot_across = [''AA'', ''BC''] \<and> d' slot_down = [''CD'', ''AA''] \<and>
      (\<forall>wx \<in> set (d' slot_across). \<exists>wy \<in> set (d' slot_down).
          1 < length wx \<and> 0 < length wy \<and> wx ! 1 = wy ! 0)"
proof -
  obtain d' where r: "ac3 (corner corner_words) corner_domains None = Some (Inr (True, d', None))"
    and a: "d' slot_across = [''AA'', ''BC'']" and b: "d' slot_down = [''CD'', ''AA'']"
    by (rule corner_ac3_obtain)
  have ov: "overlaps (corner corner_words) (slot_across, slot_down) = Some (1, 0)"
    by (simp add: corner_def corner_overlaps_def)
  have vars: "slot_across \<in> set (variables (corner corner_words))"
    "slot_down \<in> set (variables (corner corner_words))" "slot_across \<noteq> slot_down"
    by (simp_all add: corner_def slot_across_def slot_down_def)
  from ac3_sound[OF corner_symmetric r] vars ov
  have "\<forall>wx \<in> set (d' slot_across). \<exists>wy \<in> set (d' slot_down).
          1 < length wx \<and> 0 < length wy \<and> wx ! 1 = wy ! 0"
    by blast
  with r a b show ?thesis by blast
qed

subsection \<open>AC-3 keeps the words of every solution\<close>

lemma solution_agree:
  assumes "valid_solution cw a" and "(x, wx) \<in> set a" and "y \<in> set (variables cw)" and "x \<noteq> y"
    and "overlaps cw (x, y) = Some ij"
  obtains wy where "(y, wy) \<in> set a" and "agree ij wx wy"
proof -
  from assms(1,3) obtain wy where wy: "(y, wy) \<in> set a"
    unfolding valid_solution_def complete_assignment_def by force
  from assms(1) have "overlaps_agree cw a" by (simp add: valid_solution_def)
  with assms(2,4,5) wy have "agree ij wx wy"
    unfolding overlaps_agree_def by fastforce
  with wy that show ?thesis by blast
qed

lemma revise_keeps_solution:
  assumes sol: "valid_solution cw a" and dr: "drawn_from d a"
    and rv: "revise cw d x y = Inr (revised, d')"
  shows "drawn_from d' a"
  unfolding drawn_from_def
proof (intro ballI, clarify)
  fix v w assume vw: "(v, w) \<in> set a"
  with dr have w: "w \<in> set (d v)" unfolding drawn_from_def by blast
  show "w \<in> set (d' v)"
  proof (cases "v = x")
    case False
    with w show ?thesis using revise_Inr(4)[OF rv] by simp
  next
    case True
    show ?thesis
    proof (cases "overlaps cw (x, y)")
      case None
      with w show ?thesis using revise_Inr(5)[OF rv] by simp
    next
      case (Some ij)
      obtain i j where ij: "ij = (i, j)" by (cases ij)
      from solution_agree[OF sol vw[unfolded True] revise_Inr(2,3)[OF rv] Some]
      obtain wy where wy: "(y, wy) \<in> set a" and ag: "agree ij w wy" by blast
      from wy dr have "wy \<in> set (d y)" unfolding drawn_from_def by blast
      with ag have "has_match w i j (d y)" unfolding has_match_iff ij by blast
      with w True show ?thesis using revise_domain[OF rv Some[unfolded ij]] by simp
    qed
  qed
qed

lemma ac3_loop_keeps_solution:
  assumes sol: "valid_solution cw a"
  shows "drawn_from d a \<Longrightarrow> ac3_loop cw d queue = Some (Inr (ok, d', q')) \<Longrightarrow> drawn_from d' a"
proof (induction d queue rule: ac3_loop_induct[where cw = cw])
  case (Nil d)
  then show ?case by (simp add: ac3_loop_Nil)
next
  case (Cons d x y rest)
  from Cons.prems(2) show ?case
  proof (cases rule: ac3_loop_cases)
    case (fail d1)
    then show ?thesis using revise_keeps_solution[OF sol Cons.prems(1)] by auto
  next
    case (requeue d1 ns)
    from revise_keeps_solution[OF sol Cons.prems(1) requeue(1)] requeue Cons.IH(2)
    show ?thesis by blast
  next
    case skip
    with Cons.prems(1) Cons.IH(1) show ?thesis by blast
  qed
qed

lemma wordlist_solution_drawn:
  assumes "lengths_match a" and "\<forall>(var, word) \<in> set a. word \<in> set (words cw)"
  shows "drawn_from (enforce_node_consistency cw (init_domains cw)) a"
  using assms
  unfolding drawn_from_def lengths_match_def enforce_node_consistency_def
  by (auto simp: node_consistency_loop_apply consistent_var_filter init_domains_def)

text \<open>
  Claim C5. If a complete valid solution of the constraint problem (pairwise distinct
  words, matching lengths, agreement at every overlap, every word taken from the domain
  of its slot before AC-3 runs) assigns \<open>w\<close> to \<open>x\<close>, then \<open>w\<close> is in the domain of \<open>x\<close>
  before and still after \<open>ac3()\<close> returns, whatever it returns. In \<open>solve\<close> the store
  before AC-3 is the node-consistent one, and there this holds for every valid solution
  whose words come from the word list.
\<close>

theorem ac3_keeps_solutions:
  "(global_solution cw d a \<and> ac3 cw d None = Some (Inr (ok, d', arcs')) \<and> (x, w) \<in> set a
      \<longrightarrow> w \<in> set (d x) \<and> w \<in> set (d' x)) \<and>
   (valid_solution cw a \<and> (\<forall>(var, word) \<in> set a. word \<in> set (words cw)) \<and>
    ac3 cw (enforce_node_consistency cw (init_domains cw)) None = Some (Inr (ok, d', arcs')) \<and>
    (x, w) \<in> set a
      \<longrightarrow> w \<in> set (enforce_node_consistency cw (init_domains cw) x) \<and> w \<in> set (d' x))"
proof -
  have main: "w \<in> set (d0 x) \<and> w \<in> set (d1 x)"
    if "global_solution cw d0 a" and "ac3 cw d0 None = Some (Inr (ok, d1, arcs'))"
      and xw: "(x, w) \<in> set a" for d0 d1
  proof -
    from that have sol: "valid_solution cw a" and dr: "drawn_from d0 a"
      by (simp_all add: global_solution_def)
    from that obtain q q' where "ac3_loop cw d0 q = Some (Inr (ok, d1, q'))"
      unfolding ac3_None_Inr by blast
    from ac3_loop_keeps_solution[OF sol dr this] have "drawn_from d1 a" .
    with dr xw show ?thesis unfolding drawn_from_def by blast
  qed
  have flow: "global_solution cw (enforce_node_consistency cw (init_domains cw)) a"
    if "valid_solution cw a" and "\<forall>(var, word) \<in> set a. word \<in> set (words cw)"
    using that wordlist_solution_drawn[of a cw]
    by (simp add: global_solution_def valid_solution_def)
  show ?thesis using main flow by blast
qed

lemma corner_solution_valid:
  "valid_solution (corner corner_words) corner_solution"
  by code_simp

lemma corner_solution_words:
  "\<forall>(var, word) \<in> set corner_solution. word \<in> set (words (corner corner_words))"
  by code_simp

lemma corner_solution_global:
  "global_solution (corner corner_words) corner_domains corner_solution"
  by code_simp

theorem ac3_keeps_solutions_witness:
  "global_solution (corner corner_words) corner_domains corner_solution \<and>
   (\<exists>d'. ac3 (corner corner_words) corner_domains None = Some (Inr (True, d', None)) \<and>
      ''BC'' \<in> set (d' slot_across) \<and> ''CD'' \<in> set (d' slot_down))"
proof -
  obtain d' where r: "ac3 (corner corner_words) corner_domains None = Some (Inr (True, d', None))"
    by (rule corner_ac3_obtain)
  have a: "(slot_across, ''BC'') \<in> set corner_solution"
    and b: "(slot_down, ''CD'') \<in> set corner_solution"
    by (simp_all add: corner_solution_def)
  have g: "global_solution (corner corner_words) corner_domains corner_solution"
    by (rule corner_solution_global)
  from ac3_keeps_solutions[of "corner corner_words" corner_domains corner_solution True d' None
      slot_across "''BC''"] g r a
  have "''BC'' \<in> set (d' slot_across)" by blast
  moreover
  from ac3_keeps_solutions[of "corner corner_words" _ corner_solution True d' None
      slot_down "''CD''"] corner_solution_valid corner_solution_words r[unfolded corner_domains_def] b
  have "''CD'' \<in> set (d' slot_down)" by blast
  ultimately show ?thesis using g r by blast
qed

subsection \<open>The ordering heuristics\<close>

lemma select_loop_Some:
  assumes "select_loop cw d a vs best = Inr (Some (m, v))"
    and "\<And>m' v'. best = Some (m', v') \<Longrightarrow> Q v'"
    and "\<And>v'. v' \<in> set vs \<Longrightarrow> v' \<notin> set (map fst a) \<Longrightarrow> Q v'"
  shows "Q v"
  using assms
proof (induction vs arbitrary: best)
  case Nil
  then show ?case by simp
next
  case (Cons var vs)
  have rest: "\<And>b. select_loop cw d a vs b = Inr (Some (m, v)) \<Longrightarrow>
      (\<And>m' v'. b = Some (m', v') \<Longrightarrow> Q v') \<Longrightarrow> Q v"
    using Cons.IH Cons.prems(3) by simp
  show ?case
  proof (cases "var \<in> set (map fst a)")
    case True
    with Cons.prems(1) have "select_loop cw d a vs best = Inr (Some (m, v))" by simp
    then show ?thesis using Cons.prems(2) by (rule rest)
  next
    case False
    then have qv: "Q var" using Cons.prems(3) by simp
    from Cons.prems(1) False obtain b where b: "select_loop cw d a vs b = Inr (Some (m, v))"
      and bq: "b = best \<or> (\<exists>k. b = Some (k, var))"
      by (auto split: option.splits if_splits sum.splits prod.splits)
    from b show ?thesis
    proof (rule rest)
      fix m' v' assume "b = Some (m', v')"
      with bq qv Cons.prems(2) show "Q v'" by auto
    qed
  qed
qed

lemma select_unassigned_variable_Some:
  assumes "select_unassigned_variable cw d a = Inr (Some var)"
  shows "var \<in> set (variables cw)" and "var \<notin> set (map fst a)"
proof -
  from assms obtain m where m: "select_loop cw d a (variables cw) None = Inr (Some (m, var))"
    by (auto simp: select_unassigned_variable_def split: sum.splits)
  show "var \<in> set (variables cw)"
    by (rule select_loop_Some[OF m, where Q = "\<lambda>v. v \<in> set (variables cw)"]) simp_all
  show "var \<notin> set (map fst a)"
    by (rule select_loop_Some[OF m, where Q = "\<lambda>v. v \<notin> set (map fst a)"]) simp_all
qed

lemma eliminations_words:
  "eliminations cw d a var ns ws = Inr es \<Longrightarrow> map fst es = ws"
  by (induction ws arbitrary: es) (auto split: sum.splits)

lemma order_domain_values_Inr:
  assumes "order_domain_values cw d var a = Inr (vals, d')"
  shows "d' = d" and "set vals = set (d var)" and "length vals = length (d var)"
proof -
  obtain ns where ns: "neighbors cw var = Inr ns"
    using assms by (cases "neighbors cw var") (simp_all add: order_domain_values_def)
  obtain es where es: "eliminations cw d a var ns (d var) = Inr es"
    using assms ns by (cases "eliminations cw d a var ns (d var)") (simp_all add: order_domain_values_def)
  from assms ns es have vals: "vals = map fst (sort_key snd es)" and d': "d' = d"
    by (simp_all add: order_domain_values_def)
  show "d' = d" by (rule d')
  have "set vals = fst ` set es" unfolding vals by simp
  also have "\<dots> = set (map fst es)" by simp
  finally show "set vals = set (d var)" unfolding eliminations_words[OF es] .
  have "length vals = length (map fst es)" unfolding vals by simp
  then show "length vals = length (d var)" unfolding eliminations_words[OF es] .
qed

subsection \<open>What the consistency check establishes\<close>

lemma assignment_complete_loop_iff:
  "assignment_complete_loop a vs \<longleftrightarrow> (\<forall>v \<in> set vs. \<exists>w. map_of a v = Some w \<and> w \<noteq> [])"
  by (induction vs) (auto split: option.splits)

lemma consistent_neighbors_True:
  "consistent_neighbors cw a var w ns = Inr True \<Longrightarrow> n \<in> set ns \<Longrightarrow>
     \<exists>ij. overlap_entry cw var n = Inr (Some ij) \<and> (\<forall>wn. map_of a n = Some wn \<longrightarrow> agree ij w wn)"
proof (induction ns)
  case Nil
  then show ?case by simp
next
  case (Cons m ns)
  from Cons.prems(1) obtain i j where e: "overlap_entry cw var m = Inr (Some (i, j))"
    and rest: "consistent_neighbors cw a var w ns = Inr True"
    and ag: "\<forall>wn. map_of a m = Some wn \<longrightarrow> agree (i, j) w wn"
    by (auto simp: agree_def split: sum.splits option.splits if_splits)
  show ?case
  proof (cases "n = m")
    case True
    with e ag show ?thesis by blast
  next
    case False
    with Cons.prems(2) Cons.IH[OF rest] show ?thesis by simp
  qed
qed

lemma consistent_loop_True:
  "consistent_loop cw a vs = Inr True \<Longrightarrow> v \<in> set vs \<Longrightarrow>
     \<exists>w ns. map_of a v = Some w \<and> int (length w) = var_length v \<and>
        neighbors cw v = Inr ns \<and> consistent_neighbors cw a v w ns = Inr True"
proof (induction vs)
  case Nil
  then show ?case by simp
next
  case (Cons u vs)
  from Cons.prems(1) obtain w ns where u: "map_of a u = Some w" "int (length w) = var_length u"
    "neighbors cw u = Inr ns" "consistent_neighbors cw a u w ns = Inr True"
    and rest: "consistent_loop cw a vs = Inr True"
    by (auto split: sum.splits option.splits if_splits)
  show ?case
  proof (cases "v = u")
    case True
    with u show ?thesis by blast
  next
    case False
    with Cons.prems(2) Cons.IH[OF rest] show ?thesis by simp
  qed
qed

lemma consistent_True:
  assumes "consistent cw a = Inr True"
  shows "distinct (map snd a)" and "consistent_loop cw a (map fst a) = Inr True"
proof -
  from assms have l: "length a = length (remdups (map snd a))"
    and c: "consistent_loop cw a (map fst a) = Inr True"
    by (auto simp: consistent_def split: if_splits)
  from l have "remdups (map snd a) = map snd a"
    by (metis length_map length_remdups_eq)
  then show "distinct (map snd a)" by (simp only: remdups_id_iff_distinct)
  show "consistent_loop cw a (map fst a) = Inr True" by (rule c)
qed

lemma consistent_pair:
  assumes c: "consistent_loop cw a (map fst a) = Inr True"
    and x: "(x, wx) \<in> set a" and y: "(y, wy) \<in> set a" and d: "distinct (map fst a)"
    and xy: "x \<noteq> y" and ov: "overlaps cw (x, y) = Some ij"
    and vx: "x \<in> set (variables cw)" and vy: "y \<in> set (variables cw)"
  shows "agree ij wx wy"
proof -
  have mx: "map_of a x = Some wx" and my: "map_of a y = Some wy"
    using x y d by simp_all
  from consistent_loop_True[OF c, of y] y obtain ny where ny: "neighbors cw y = Inr ny"
    and cy: "consistent_neighbors cw a y wy ny = Inr True"
    using my by force
  have "x \<in> set ny" using neighbors_Inr(3)[OF ny, of x] vx vy xy ov by simp
  from consistent_neighbors_True[OF cy this] have yx: "overlaps cw (y, x) \<noteq> None"
    by (auto simp: overlap_entry_def split: if_splits)
  from consistent_loop_True[OF c, of x] x obtain nx where nx: "neighbors cw x = Inr nx"
    and cx: "consistent_neighbors cw a x wx nx = Inr True"
    using mx by force
  have "y \<in> set nx" using neighbors_Inr(3)[OF nx, of y] vx vy xy yx by simp
  from consistent_neighbors_True[OF cx this] my ov vx vy xy show ?thesis
    by (auto simp: overlap_entry_def)
qed

lemma consistent_complete_valid:
  assumes c: "consistent cw a = Inr True" and comp: "assignment_complete cw a"
    and sd: "slot_dict cw a"
  shows "valid_solution cw a"
proof -
  from sd have d: "distinct (map fst a)" and sub: "set (map fst a) \<subseteq> set (variables cw)"
    by (simp_all add: slot_dict_def)
  note cl = consistent_True(2)[OF c]
  have "set (variables cw) \<subseteq> set (map fst a)"
  proof
    fix v assume "v \<in> set (variables cw)"
    with comp obtain w where "map_of a v = Some w"
      unfolding assignment_complete_def assignment_complete_loop_iff by blast
    then have "(v, w) \<in> set a" by (rule map_of_SomeD)
    then show "v \<in> set (map fst a)" by force
  qed
  with d sub have 1: "complete_assignment cw a" by (auto simp: complete_assignment_def)
  have 2: "words_distinct a" using consistent_True(1)[OF c] by (simp add: words_distinct_def)
  have 3: "lengths_match a"
    unfolding lengths_match_def
  proof (intro ballI, clarify)
    fix v w assume vw: "(v, w) \<in> set a"
    then have "v \<in> set (map fst a)" by force
    from consistent_loop_True[OF cl this] vw d show "int (length w) = var_length v" by auto
  qed
  have 4: "overlaps_agree cw a"
    unfolding overlaps_agree_def
  proof (intro ballI, clarify)
    fix x wx y wy assume x: "(x, wx) \<in> set a" and y: "(y, wy) \<in> set a" and xy: "x \<noteq> y"
    from x y sub have vx: "x \<in> set (variables cw)" and vy: "y \<in> set (variables cw)" by force+
    show "case overlaps cw (x, y) of None \<Rightarrow> True | Some ij \<Rightarrow> agree ij wx wy"
    proof (cases "overlaps cw (x, y)")
      case None
      then show ?thesis by simp
    next
      case (Some ij)
      with consistent_pair[OF cl x y d xy Some vx vy] show ?thesis by simp
    qed
  qed
  from 1 2 3 4 show ?thesis by (simp add: valid_solution_def)
qed

subsection \<open>Backtracking search\<close>

lemma keys_update: "fst ` set (AList.update k v al) = insert k (fst ` set al)"
  using dom_update[of k v al] by simp

lemma keys_delete: "fst ` set (AList.delete k al) = fst ` set al - {k}"
  using delete_keys[of k al, THEN arg_cong, of set] by simp

lemma slot_dict_update:
  "slot_dict cw a \<Longrightarrow> var \<in> set (variables cw) \<Longrightarrow> slot_dict cw (AList.update var val a)"
  by (simp add: slot_dict_def keys_update distinct_update)

lemma slot_dict_delete: "slot_dict cw a \<Longrightarrow> slot_dict cw (AList.delete var a)"
  by (auto simp: slot_dict_def keys_delete distinct_delete)

lemma try_values_Cons:
  "try_values cw n d var (val # vals) a =
     (case consistent cw (AList.update var val a) of
        Inl e \<Rightarrow> Some (Inl e)
      | Inr ok \<Rightarrow>
          if ok then
            (case backtrack cw n d (AList.update var val a) of
               None \<Rightarrow> None
             | Some (Inl e) \<Rightarrow> Some (Inl e)
             | Some (Inr (result, d', a2)) \<Rightarrow>
                 (case result of
                    Some r \<Rightarrow> Some (Inr (Some r, d', a2))
                  | None \<Rightarrow> try_values cw n d' var vals (AList.delete var a2)))
          else try_values cw n d var vals (AList.update var val a))"
  by (simp add: Let_def)

lemma try_values_cases:
  assumes "try_values cw n d var (val # vals) a = Some (Inr out)"
  obtains (rejected) "consistent cw (AList.update var val a) = Inr False"
      "try_values cw n d var vals (AList.update var val a) = Some (Inr out)"
  | (found) r d' a2 where "consistent cw (AList.update var val a) = Inr True"
      "backtrack cw n d (AList.update var val a) = Some (Inr (Some r, d', a2))"
      "out = (Some r, d', a2)"
  | (undone) d' a2 where "consistent cw (AList.update var val a) = Inr True"
      "backtrack cw n d (AList.update var val a) = Some (Inr (None, d', a2))"
      "try_values cw n d' var vals (AList.delete var a2) = Some (Inr out)"
proof (cases "consistent cw (AList.update var val a)")
  case (Inl e)
  with assms show ?thesis by (simp add: try_values_Cons)
next
  case (Inr ok)
  show ?thesis
  proof (cases ok)
    case False
    with Inr assms rejected show ?thesis by (simp add: try_values_Cons)
  next
    case True
    show ?thesis
    proof (cases "backtrack cw n d (AList.update var val a)")
      case None
      with Inr True assms show ?thesis by (simp add: try_values_Cons)
    next
      case (Some res)
      show ?thesis
      proof (cases res)
        case (Inl e)
        with Inr True Some assms show ?thesis by (simp add: try_values_Cons)
      next
        case bt: (Inr b)
        obtain result d' a2 where b: "b = (result, d', a2)" by (cases b)
        show ?thesis
        proof (cases result)
          case None
          with Inr True Some bt b assms undone show ?thesis by (simp add: try_values_Cons)
        next
          case r: (Some r)
          with Inr True Some bt b assms have "out = (Some r, d', a2)"
            by (simp add: try_values_Cons)
          with Inr True Some bt b r show ?thesis by (intro found) simp_all
        qed
      qed
    qed
  qed
qed

lemma try_values_props:
  assumes bt: "\<And>d a out. backtrack cw n d a = Some (Inr out) \<Longrightarrow> backtrack_post cw d a out"
  shows "try_values cw n d var vals a = Some (Inr out) \<Longrightarrow> try_values_post cw d var a out"
proof (induction vals arbitrary: a d)
  case Nil
  then show ?case by (auto simp: try_values_post_def)
next
  case (Cons val vals)
  let ?a1 = "AList.update var val a"
  from Cons.prems show ?case
  proof (cases rule: try_values_cases)
    case rejected
    from Cons.IH[OF rejected(2)] show ?thesis
      unfolding try_values_post_def by (auto simp: keys_update slot_dict_update)
  next
    case (found r d' a2)
    from bt[OF found(2)] found(1,3) show ?thesis
      unfolding try_values_post_def backtrack_post_def
      by (auto simp: keys_update slot_dict_update)
  next
    case (undone d' a2)
    from bt[OF undone(2)] have d': "d' = d" and k: "set (map fst ?a1) \<subseteq> set (map fst a2)"
      and s: "slot_dict cw ?a1 \<longrightarrow> slot_dict cw a2"
      unfolding backtrack_post_def by auto
    from Cons.IH[OF undone(3)] have "try_values_post cw d' var (AList.delete var a2) out" .
    with d' k s show ?thesis
      unfolding try_values_post_def
      by (auto simp: keys_update keys_delete slot_dict_update slot_dict_delete)
  qed
qed

lemma backtrack_Suc_cases:
  assumes "backtrack cw (Suc n) d a = Some (Inr out)"
  obtains (complete) "assignment_complete cw a" "out = (Some a, d, a)"
  | (search) var vals d' where "\<not> assignment_complete cw a"
      "select_unassigned_variable cw d a = Inr (Some var)"
      "order_domain_values cw d var a = Inr (vals, d')"
      "try_values cw n d' var vals a = Some (Inr out)"
proof (cases "assignment_complete cw a")
  case True
  with assms complete show ?thesis by simp
next
  case False
  with assms obtain var where v: "select_unassigned_variable cw d a = Inr (Some var)"
    by (cases "select_unassigned_variable cw d a") (auto split: option.splits)
  with False assms obtain o1 where "order_domain_values cw d var a = Inr o1"
    by (cases "order_domain_values cw d var a") auto
  moreover obtain vals d' where "o1 = (vals, d')" by (cases o1)
  ultimately have o: "order_domain_values cw d var a = Inr (vals, d')" by simp
  with False v assms search show ?thesis by simp
qed

lemma backtrack_props:
  "backtrack cw n d a = Some (Inr out) \<Longrightarrow> backtrack_post cw d a out"
proof (induction n arbitrary: d a out)
  case 0
  then show ?case by simp
next
  case (Suc n)
  from Suc.prems show ?case
  proof (cases rule: backtrack_Suc_cases)
    case complete
    then show ?thesis by (simp add: backtrack_post_def)
  next
    case (search var vals d')
    note sel = select_unassigned_variable_Some[OF search(2)]
    have d': "d' = d" using order_domain_values_Inr(1)[OF search(3)] .
    have "try_values_post cw d' var a out"
      using Suc.IH search(4) by (rule try_values_props)
    with sel d' show ?thesis
      unfolding try_values_post_def backtrack_post_def by auto
  qed
qed

subsection \<open>The fuel of the search is enough\<close>

lemma unassigned_less:
  assumes "var \<in> set (variables cw)" and "var \<notin> fst ` set a0"
    and "insert var (fst ` set a0) \<subseteq> fst ` set a1"
  shows "length (unassigned cw a1) < length (unassigned cw a0)"
proof -
  let ?P = "\<lambda>v. v \<notin> set (map fst a1)" and ?Q = "\<lambda>v. v \<notin> set (map fst a0)"
  let ?vs = "remdups (variables cw)"
  have "\<And>v. ?P v = (?Q v \<and> ?P v)" using assms(3) by auto
  then have "filter ?P ?vs = filter (\<lambda>v. ?Q v \<and> ?P v) ?vs" by simp
  then have eq: "filter ?P ?vs = filter ?P (filter ?Q ?vs)" by (simp only: filter_filter)
  have "var \<in> set (filter ?Q ?vs)" using assms(1,2) by simp
  moreover have "\<not> ?P var" using assms(3) by auto
  ultimately have "length (filter ?P (filter ?Q ?vs)) < length (filter ?Q ?vs)"
    by (rule length_filter_less)
  with eq show ?thesis unfolding unassigned_def by simp
qed

lemma try_values_fuel:
  assumes bt: "\<And>d a. length (unassigned cw a) < n \<Longrightarrow> backtrack cw n d a \<noteq> None"
    and var: "var \<in> set (variables cw)" "var \<notin> fst ` set a0"
    and n: "length (unassigned cw a0) \<le> n"
  shows "fst ` set a0 \<subseteq> fst ` set a \<Longrightarrow> try_values cw n d var vals a \<noteq> None"
proof (induction vals arbitrary: a d)
  case Nil
  then show ?case by simp
next
  case (Cons val vals)
  let ?a1 = "AList.update var val a"
  have k1: "insert var (fst ` set a0) \<subseteq> fst ` set ?a1"
    using Cons.prems by (auto simp: keys_update)
  show ?case
  proof (cases "consistent cw ?a1")
    case (Inl e)
    then show ?thesis by (simp add: try_values_Cons)
  next
    case (Inr ok)
    show ?thesis
    proof (cases ok)
      case False
      with Inr Cons.IH[of ?a1 d] k1 show ?thesis by (simp add: try_values_Cons)
    next
      case True
      have "length (unassigned cw ?a1) < n"
        using unassigned_less[OF var k1] n by simp
      from bt[OF this] obtain res where res: "backtrack cw n d ?a1 = Some res" by blast
      show ?thesis
      proof (cases res)
        case (Inl e)
        with res Inr True show ?thesis by (simp add: try_values_Cons)
      next
        case b: (Inr out)
        obtain result d' a2 where out: "out = (result, d', a2)" by (cases out)
        show ?thesis
        proof (cases result)
          case (Some r)
          with Inr True res b out show ?thesis by (simp add: try_values_Cons)
        next
          case None
          from backtrack_props[of cw n d ?a1 out] res b out
          have "fst ` set ?a1 \<subseteq> fst ` set a2"
            by (simp add: backtrack_post_def)
          with k1 var(2) have "fst ` set a0 \<subseteq> fst ` set a2 - {var}"
            by blast
          then have "fst ` set a0 \<subseteq> fst ` set (AList.delete var a2)"
            by (simp only: keys_delete)
          from Cons.IH[OF this] Inr True res b out None show ?thesis
            by (simp add: try_values_Cons)
        qed
      qed
    qed
  qed
qed

lemma backtrack_fuel:
  "length (unassigned cw a) < n \<Longrightarrow> backtrack cw n d a \<noteq> None"
proof (induction n arbitrary: d a)
  case 0
  then show ?case by simp
next
  case (Suc n)
  show ?case
  proof (cases "assignment_complete cw a")
    case True
    then show ?thesis by simp
  next
    case False
    show ?thesis
    proof (cases "select_unassigned_variable cw d a")
      case (Inl e)
      with False show ?thesis by simp
    next
      case (Inr sel)
      show ?thesis
      proof (cases sel)
        case None
        with False Inr show ?thesis by simp
      next
        case (Some var)
        note v = select_unassigned_variable_Some[OF Inr[unfolded Some]]
        show ?thesis
        proof (cases "order_domain_values cw d var a")
          case (Inl e)
          with False Inr Some show ?thesis by simp
        next
          case o: (Inr ov)
          obtain vals d' where ov: "ov = (vals, d')" by (cases ov)
          have "try_values cw n d' var vals a \<noteq> None"
          proof (rule try_values_fuel[where ?a0.0 = a])
            show "\<And>d a. length (unassigned cw a) < n \<Longrightarrow> backtrack cw n d a \<noteq> None"
              by (rule Suc.IH)
            show "var \<in> set (variables cw)" by (rule v(1))
            show "var \<notin> fst ` set a" using v(2) by simp
            show "length (unassigned cw a) \<le> n" using Suc.prems by simp
            show "fst ` set a \<subseteq> fst ` set a" by simp
          qed
          with False Inr Some o ov show ?thesis by simp
        qed
      qed
    qed
  qed
qed

lemma unassigned_empty: "length (unassigned cw []) \<le> length (variables cw)"
  unfolding unassigned_def by (simp add: le_trans[OF length_filter_le length_remdups_leq])

lemma solve_returns: "\<exists>r. solve cw = Some r"
proof -
  let ?d1 = "enforce_node_consistency cw (init_domains cw)"
  obtain r1 where r1: "ac3 cw ?d1 None = Some r1" using ac3_returns by blast
  show ?thesis
  proof (cases r1)
    case (Inl e)
    with r1 show ?thesis by (simp add: solve_def)
  next
    case (Inr out)
    obtain ok d2 arcs where out: "out = (ok, d2, arcs)" by (cases out)
    have "backtrack cw (Suc (length (variables cw))) d2 [] \<noteq> None"
      using unassigned_empty[of cw] by (intro backtrack_fuel) simp
    then obtain r2 where r2: "backtrack cw (Suc (length (variables cw))) d2 [] = Some r2"
      by blast
    show ?thesis
    proof (cases r2)
      case (Inl e)
      with r1 Inr out r2 show ?thesis by (simp add: solve_def)
    next
      case b: (Inr bo)
      obtain result d3 a where "bo = (result, d3, a)" by (cases bo)
      with r1 Inr out r2 b show ?thesis by (simp add: solve_def)
    qed
  qed
qed

lemma solve_Inr:
  assumes "solve cw = Some (Inr (result, d3))"
  obtains ok d2 a where
    "ac3 cw (enforce_node_consistency cw (init_domains cw)) None = Some (Inr (ok, d2, None))"
    "backtrack cw (Suc (length (variables cw))) d2 [] = Some (Inr (result, d3, a))"
proof -
  let ?d1 = "enforce_node_consistency cw (init_domains cw)"
  from assms obtain r1 where r1: "ac3 cw ?d1 None = Some (Inr r1)"
    by (cases "ac3 cw ?d1 None") (auto simp: solve_def split: sum.splits)
  obtain ok d2 arcs where o1: "r1 = (ok, d2, arcs)" by (cases r1)
  with r1 have arcs: "arcs = None" by (auto simp: ac3_None_Inr)
  let ?b = "backtrack cw (Suc (length (variables cw))) d2 []"
  from assms r1 o1 obtain r2 where r2: "?b = Some (Inr r2)"
    by (cases ?b) (auto simp: solve_def split: sum.splits)
  obtain res d' a where o2: "r2 = (res, d', a)" by (cases r2)
  with assms r1 o1 r2 have "res = result" "d' = d3" by (simp_all add: solve_def)
  with r1 o1 arcs r2 o2 that show ?thesis by simp
qed

subsection \<open>Soundness of the search\<close>

lemma consistent_empty: "consistent cw [] = Inr True"
  by (simp add: consistent_def)

text \<open>
  Claim C1. Whenever \<open>solve\<close> returns an assignment, it maps every slot of the
  crossword, and nothing else, to one word each; the words are pairwise distinct; every
  word has the length of its slot; and for every two slots with a registered overlap
  \<open>(i, j)\<close> the \<open>i\<close>-th character of the first word is the \<open>j\<close>-th character of the
  second. A partial or inconsistent assignment is never returned.
\<close>

theorem solve_sound:
  assumes "solve cw = Some (Inr (Some a, d))"
  shows "complete_assignment cw a \<and> words_distinct a \<and> lengths_match a \<and> overlaps_agree cw a"
proof -
  from assms obtain d2 a' where
    b: "backtrack cw (Suc (length (variables cw))) d2 [] = Some (Inr (Some a, d, a'))"
    by (rule solve_Inr)
  from backtrack_props[OF b] have comp: "assignment_complete cw a"
    and c: "a = [] \<or> consistent cw a = Inr True"
    and sd: "slot_dict cw [] \<longrightarrow> slot_dict cw a"
    by (auto simp: backtrack_post_def)
  from c have "consistent cw a = Inr True" using consistent_empty by auto
  moreover have "slot_dict cw a" using sd by (simp add: slot_dict_def)
  ultimately have "valid_solution cw a" using comp by (intro consistent_complete_valid)
  then show ?thesis by (simp add: valid_solution_def)
qed

lemma solvable_solve:
  "map_option (map_sum id fst) (solve (corner solvable_words)) = Some (Inr (Some corner_solution))"
  by code_simp

theorem solve_sound_witness:
  "\<exists>d. solve (corner solvable_words) = Some (Inr (Some corner_solution, d)) \<and>
     complete_assignment (corner solvable_words) corner_solution \<and>
     words_distinct corner_solution \<and> lengths_match corner_solution \<and>
     overlaps_agree (corner solvable_words) corner_solution"
proof -
  let ?r = "solve (corner solvable_words)"
  from solvable_solve obtain res where "?r = Some (Inr res)"
    by (cases ?r) (auto simp: map_sum_def split: sum.splits)
  with solvable_solve obtain d where r: "?r = Some (Inr (Some corner_solution, d))"
    by (cases res) auto
  with solve_sound[OF r] show ?thesis by blast
qed

subsection \<open>The search leaves the domain store alone\<close>

text \<open>
  Claim C8. A call of \<open>backtrack\<close> that returns, with an assignment or with \<open>None\<close>,
  leaves the domain store as it found it, so after \<open>solve\<close> the store is the one that
  node consistency and AC-3 produced. The ordering pass of \<open>order_domain_values\<close>
  returns the words of the slot's domain, reordered, and does not change the store.
\<close>

theorem search_keeps_domains:
  "(backtrack cw n d a = Some (Inr (result, d', a')) \<longrightarrow> d' = d) \<and>
   (order_domain_values cw d var a = Inr (vals, d'') \<longrightarrow>
      d'' = d \<and> set vals = set (d var) \<and> length vals = length (d var)) \<and>
   (solve cw = Some (Inr (result, d3)) \<longrightarrow>
      (\<exists>ok. ac3 cw (enforce_node_consistency cw (init_domains cw)) None = Some (Inr (ok, d3, None))))"
proof (intro conjI impI)
  assume "backtrack cw n d a = Some (Inr (result, d', a'))"
  from backtrack_props[OF this] show "d' = d" by (simp add: backtrack_post_def)
next
  assume o: "order_domain_values cw d var a = Inr (vals, d'')"
  show "d'' = d" by (rule order_domain_values_Inr(1)[OF o])
  show "set vals = set (d var)" by (rule order_domain_values_Inr(2)[OF o])
  show "length vals = length (d var)" by (rule order_domain_values_Inr(3)[OF o])
next
  assume "solve cw = Some (Inr (result, d3))"
  then obtain ok d2 a2 where
    a: "ac3 cw (enforce_node_consistency cw (init_domains cw)) None = Some (Inr (ok, d2, None))"
    and b: "backtrack cw (Suc (length (variables cw))) d2 [] = Some (Inr (result, d3, a2))"
    by (rule solve_Inr)
  from backtrack_props[OF b] have "d3 = d2" by (simp add: backtrack_post_def)
  with a show "\<exists>ok. ac3 cw (enforce_node_consistency cw (init_domains cw)) None
      = Some (Inr (ok, d3, None))" by blast
qed

lemma tea_inner_result:
  "map_option (map_sum id fst)
     (backtrack (fork fork_slots tea_words) 2 (init_domains (fork fork_slots tea_words))
        [(slot_stem, ''TOT''), (slot_top, ''TEA'')]) = Some (Inr None)"
  by code_simp

lemma tea_order_stem:
  "map_sum id fst
     (order_domain_values (fork fork_slots tea_words) (init_domains (fork fork_slots tea_words)) slot_stem [])
   = Inr [''TOT'', ''ACT'', ''TEA'']"
  by code_simp

theorem search_keeps_domains_witness:
  "(\<exists>d3. solve (corner solvable_words) = Some (Inr (Some corner_solution, d3)) \<and>
      (\<exists>ok. ac3 (corner solvable_words)
               (enforce_node_consistency (corner solvable_words) (init_domains (corner solvable_words))) None
             = Some (Inr (ok, d3, None)))) \<and>
   (\<exists>a'. backtrack (fork fork_slots tea_words) 2 (init_domains (fork fork_slots tea_words))
        [(slot_stem, ''TOT''), (slot_top, ''TEA'')]
      = Some (Inr (None, init_domains (fork fork_slots tea_words), a'))) \<and>
   order_domain_values (fork fork_slots tea_words) (init_domains (fork fork_slots tea_words)) slot_stem []
     = Inr ([''TOT'', ''ACT'', ''TEA''], init_domains (fork fork_slots tea_words))"
proof (intro conjI)
  let ?cw = "corner solvable_words"
  from solvable_solve obtain res where "solve ?cw = Some (Inr res)"
    by (cases "solve ?cw") (auto simp: map_sum_def split: sum.splits)
  with solvable_solve obtain d3 where r: "solve ?cw = Some (Inr (Some corner_solution, d3))"
    by (cases res) auto
  from search_keeps_domains[of ?cw _ _ _ "Some corner_solution" _ _ _ _ _ d3] r
  have "\<exists>ok. ac3 ?cw (enforce_node_consistency ?cw (init_domains ?cw)) None = Some (Inr (ok, d3, None))"
    by blast
  with r show "\<exists>d3. solve ?cw = Some (Inr (Some corner_solution, d3)) \<and>
      (\<exists>ok. ac3 ?cw (enforce_node_consistency ?cw (init_domains ?cw)) None = Some (Inr (ok, d3, None)))"
    by blast
next
  let ?cw = "fork fork_slots tea_words"
  let ?b = "backtrack ?cw 2 (init_domains ?cw) [(slot_stem, ''TOT''), (slot_top, ''TEA'')]"
  from tea_inner_result obtain res where "?b = Some (Inr res)"
    by (cases ?b) (auto simp: map_sum_def split: sum.splits)
  with tea_inner_result obtain d' a' where r: "?b = Some (Inr (None, d', a'))"
    by (cases res) auto
  with search_keeps_domains[of ?cw 2 "init_domains ?cw" "[(slot_stem, ''TOT''), (slot_top, ''TEA'')]"
      None d' a']
  have "d' = init_domains ?cw" by blast
  with r show "\<exists>a'. ?b = Some (Inr (None, init_domains ?cw, a'))" by blast
next
  let ?cw = "fork fork_slots tea_words"
  let ?o = "order_domain_values ?cw (init_domains ?cw) slot_stem []"
  from tea_order_stem obtain res where "?o = Inr res"
    by (cases ?o) auto
  with tea_order_stem obtain d' where r: "?o = Inr ([''TOT'', ''ACT'', ''TEA''], d')"
    by (cases res) auto
  with search_keeps_domains[of ?cw _ "init_domains ?cw" "[]" _ _ _ slot_stem "[''TOT'', ''ACT'', ''TEA'']" d']
  have "d' = init_domains ?cw" by blast
  with r show "?o = Inr ([''TOT'', ''ACT'', ''TEA''], init_domains ?cw)" by simp
qed

subsection \<open>A rejected candidate is left in the assignment\<close>

text \<open>
  Claim C2, at a call the search makes on the three-slot crossword with the words
  \<open>ACT\<close>, \<open>TEA\<close>, \<open>TOT\<close>: \<open>backtrack\<close> is entered with \<open>TOT\<close> in the column and
  \<open>TEA\<close> in the first row. All three candidates of the last row fail the consistency
  check, the call returns \<open>None\<close>, and the candidate tried last is still in the
  assignment: \<open>assignment.pop\<close> is reached only after a failed recursive call, not
  after a failed check.
\<close>

theorem backtrack_leaves_rejected_entry:
  "map_option (map_sum id (\<lambda>(result, d, a). (result, a)))
     (backtrack (fork fork_slots tea_words) 2 (init_domains (fork fork_slots tea_words))
        [(slot_stem, ''TOT''), (slot_top, ''TEA'')])
   = Some (Inr (None, [(slot_stem, ''TOT''), (slot_top, ''TEA''), (slot_bottom, ''TOT'')]))"
  by code_simp

subsection \<open>The search misses a solution\<close>

text \<open>
  \<open>slot_orders\<close> and \<open>word_orders\<close> are six different arrangements each of the three
  slots and of the three words, that is, all of them.
\<close>

lemma orders_complete:
  "list_all (\<lambda>vs. distinct vs \<and> set vs = set fork_slots) slot_orders \<and>
   distinct slot_orders \<and> length slot_orders = 6 \<and>
   list_all (\<lambda>ws. distinct ws \<and> set ws = set tea_words) word_orders \<and>
   distinct word_orders \<and> length word_orders = 6"
  by code_simp

text \<open>
  The assignment \<open>tea_solution\<close> is a solution of the three-slot crossword drawn from the
  node-consistent domains, whatever the order of the slots and of the words.
\<close>

lemma tea_solution_global:
  "list_all (\<lambda>vs. list_all (\<lambda>ws.
       global_solution (fork vs ws) (enforce_node_consistency (fork vs ws) (init_domains (fork vs ws)))
         tea_solution) word_orders) slot_orders"
  by code_simp

text \<open>
  Claim C3, on the same crossword, for every order of the slots and of the words: AC-3
  returns \<open>True\<close> and removes no word; \<open>TOT\<close> in the first row, \<open>TEA\<close> in the column
  and \<open>ACT\<close> in the last row is a complete assignment that passes the solver's own
  consistency check (and is a solution drawn from the domains, \<open>tea_solution_global\<close>);
  and \<open>solve\<close> returns \<open>None\<close>. The search tries \<open>TOT\<close> in the column first; the calls
  below it fail and leave rejected candidates in the assignment, which then make the
  consistency check reject \<open>TEA\<close> in the column.
\<close>

theorem solve_misses_solution:
  "list_all (\<lambda>vs. list_all (\<lambda>ws.
       map_option (map_sum id fst) (solve (fork vs ws)) = Some (Inr None) \<and>
       map_option (map_sum id (\<lambda>(ok, d, arcs). (ok, map d fork_slots)))
         (ac3 (fork vs ws) (enforce_node_consistency (fork vs ws) (init_domains (fork vs ws))) None)
         = Some (Inr (True, [ws, ws, ws])) \<and>
       assignment_complete (fork vs ws) tea_solution \<and>
       consistent (fork vs ws) tea_solution = Inr True)
     word_orders) slot_orders \<and>
   tea_solution = [(slot_top, ''TOT''), (slot_stem, ''TEA''), (slot_bottom, ''ACT'')]"
  by code_simp

end
